theory Spec2Isabelle
  imports Main "HOL-Library.Sublist" "HOL-Library.Multiset" "HOL-Library.List_Lexorder" "HOL-Library.Char_ord"
begin

section \<open>Values shared by the server and the browser code\<close>

text \<open>
  Request bodies, cached payloads and classifier answers are JSON values. An object is
  the list of its members in insertion order; a member is read with \<open>get_prop\<close>, which is
  \<open>None\<close> where JavaScript yields \<open>undefined\<close>. Numbers are integers: the code below
  only tests a number for zero or, for a category name, turns it into a property key.
\<close>

datatype json =
    JNull
  | JBool bool
  | JNum int
  | JStr string
  | JArr "json list"
  | JObj "(string \<times> json) list"

text \<open>JavaScript truthiness of a JSON value, as used by \<open>if (x)\<close> and \<open>!x\<close>.\<close>

fun truthy :: "json \<Rightarrow> bool" where
  "truthy JNull = False"
| "truthy (JBool b) = b"
| "truthy (JNum n) = (n \<noteq> 0)"
| "truthy (JStr s) = (s \<noteq> [])"
| "truthy (JArr xs) = True"
| "truthy (JObj kvs) = True"

text \<open>\<open>x.k\<close> for a value that is not \<open>null\<close>: only objects carry the members read here.\<close>

fun get_prop :: "json \<Rightarrow> string \<Rightarrow> json option" where
  "get_prop (JObj kvs) k = map_of kvs k"
| "get_prop _ k = None"

text \<open>\<open>if (x.k)\<close>: the member is present and truthy.\<close>

definition truthy_prop :: "json \<Rightarrow> string \<Rightarrow> bool" where
  "truthy_prop j k = (case get_prop j k of None \<Rightarrow> False | Some v \<Rightarrow> truthy v)"

text \<open>\<open>s.includes(t)\<close> on strings.\<close>

definition js_includes :: "string \<Rightarrow> string \<Rightarrow> bool" where
  "js_includes s t = sublist t s"

text \<open>
  The names that every plain object inherits from \<open>Object.prototype\<close>: \<open>obj[name]\<close> is
  a function or an object, hence truthy, for each of them, whatever \<open>obj\<close> holds itself.
\<close>

definition object_prototype_names :: "string list" where
  "object_prototype_names =
     [''constructor'', ''__defineGetter__'', ''__defineSetter__'', ''hasOwnProperty'',
      ''__lookupGetter__'', ''__lookupSetter__'', ''isPrototypeOf'', ''propertyIsEnumerable'',
      ''toString'', ''valueOf'', ''__proto__'', ''toLocaleString'']"

section \<open>Key rotation on the server (\<open>src/routes/api.js\<close>)\<close>

text \<open>
  \<open>keyUsageTracking.youtube\<close> together with the module variable \<open>keyRotationLock\<close>.
  Dates are milliseconds since the epoch.
\<close>

record key_state =
  currentKeyIndex :: nat
  quotaResets :: "nat \<rightharpoonup> int"
  usageCount :: "nat \<rightharpoonup> nat"
  keyRotationLock :: bool

text \<open>
  \<open>getYouTubeApiKeys\<close>: the five environment variables, \<open>None\<close> when unset, filtered with
  \<open>Boolean\<close> (which also drops the empty string).
\<close>

definition getYouTubeApiKeys :: "string option list \<Rightarrow> string list" where
  "getYouTubeApiKeys env = concat (map (\<lambda>e. case e of None \<Rightarrow> [] | Some k \<Rightarrow> (if k = [] then [] else [k])) env)"

definition DAY_MS :: int where
  "DAY_MS = 24 * 60 * 60 * 1000"

text \<open>
  The body of the \<open>try\<close> block of \<open>rotateYoutubeKey\<close>: the result is the thrown message or
  the returned key, with the tracking state it leaves.
\<close>

definition rotate_body :: "string option list \<Rightarrow> int \<Rightarrow> key_state \<Rightarrow> (string + string) \<times> key_state" where
  "rotate_body env now s =
     (let youtubeApiKeys = getYouTubeApiKeys env in
      if length youtubeApiKeys = 0 then (Inl ''No YouTube API keys available'', s)
      else
        let i = (currentKeyIndex s + 1) mod length youtubeApiKeys;
            s1 = s\<lparr>currentKeyIndex := i\<rparr>;
            s2 = (case quotaResets s1 i of
                    None \<Rightarrow> s1
                  | Some lastReset \<Rightarrow>
                      if now - lastReset \<ge> DAY_MS
                      then s1\<lparr>usageCount := (usageCount s1)(i \<mapsto> 0),
                              quotaResets := (quotaResets s1)(i \<mapsto> now)\<rparr>
                      else s1)
        in (Inr (youtubeApiKeys ! i), s2))"

text \<open>
  One run of \<open>rotateYoutubeKey\<close> from its entry (or from the wake-up of its 10 ms timer)
  to its next suspension. The only \<open>await\<close> of the function is inside the
  \<open>while (keyRotationLock)\<close> loop, so a run that finds the lock held goes back to
  sleep (\<open>None\<close>) and a run that finds it free takes the lock, executes the body and
  releases the lock in \<open>finally\<close> without ever yielding.
\<close>

definition rotateYoutubeKey :: "string option list \<Rightarrow> int \<Rightarrow> key_state \<Rightarrow> ((string + string) \<times> key_state) option" where
  "rotateYoutubeKey env now s =
     (if keyRotationLock s then None
      else
        let (r, s') = rotate_body env now (s\<lparr>keyRotationLock := True\<rparr>)
        in Some (r, s'\<lparr>keyRotationLock := False\<rparr>))"

text \<open>Successive calls of \<open>rotateYoutubeKey\<close>, one per time stamp, each awaited before the next.\<close>

fun rotate_seq :: "string option list \<Rightarrow> int list \<Rightarrow> key_state \<Rightarrow> key_state option" where
  "rotate_seq env [] s = Some s"
| "rotate_seq env (now # nows) s =
     (case rotateYoutubeKey env now s of
        None \<Rightarrow> None
      | Some (r, s') \<Rightarrow> rotate_seq env nows s')"

text \<open>\<open>initializeKeyTracking\<close> at time \<open>t0\<close>, from the initial module state.\<close>

definition initializeKeyTracking :: "string option list \<Rightarrow> int \<Rightarrow> key_state" where
  "initializeKeyTracking env t0 =
     \<lparr>currentKeyIndex = 0,
      quotaResets = (\<lambda>i. if i < length (getYouTubeApiKeys env) then Some t0 else None),
      usageCount = (\<lambda>i. if i < length (getYouTubeApiKeys env) then Some 0 else None),
      keyRotationLock = False\<rparr>"

text \<open>Example environments: three configured keys, and none.\<close>

definition env_three_keys :: "string option list" where
  "env_three_keys = [Some ''k1'', Some ''k2'', None, Some ''k3'', None]"

definition env_no_keys :: "string option list" where
  "env_no_keys = [None, Some [], None, None, None]"

subsection \<open>Concurrent callers of \<open>rotateYoutubeKey\<close>\<close>

text \<open>
  Several requests may have called \<open>rotateYoutubeKey\<close> before any of them has returned.
  Node runs one of them at a time, each from its entry or timer wake-up to its next
  \<open>await\<close>. A caller is \<open>Pending\<close> until its run finds the lock free; an event \<open>(i, now)\<close>
  gives the processor to caller \<open>i\<close> at time \<open>now\<close>.
\<close>

datatype caller = Pending | Returned "string + string"

fun run_event :: "string option list \<Rightarrow> nat \<times> int \<Rightarrow> caller list \<times> key_state \<Rightarrow> caller list \<times> key_state" where
  "run_event env (i, now) (cs, s) =
     (if i < length cs \<and> cs ! i = Pending
      then (case rotateYoutubeKey env now s of
              None \<Rightarrow> (cs, s)
            | Some (r, s') \<Rightarrow> (cs[i := Returned r], s'))
      else (cs, s))"

fun run_events :: "string option list \<Rightarrow> (nat \<times> int) list \<Rightarrow> caller list \<times> key_state \<Rightarrow> caller list \<times> key_state" where
  "run_events env [] st = st"
| "run_events env (ev # evs) st = run_events env evs (run_event env ev st)"

definition returned_count :: "caller list \<Rightarrow> nat" where
  "returned_count cs = length (filter (\<lambda>c. c \<noteq> Pending) cs)"

text \<open>
  The order in which the callers \<open>0, \<dots>, k - 1\<close> get their first run under a schedule:
  \<open>first_runs k seen js\<close> lists the callers below \<open>k\<close> in the order of their first
  occurrence in \<open>js\<close>, those in \<open>seen\<close> left out.
\<close>

fun first_runs :: "nat \<Rightarrow> nat list \<Rightarrow> nat list \<Rightarrow> nat list" where
  "first_runs k seen [] = []"
| "first_runs k seen (j # js) =
     (if j < k \<and> j \<notin> set seen then j # first_runs k (j # seen) js else first_runs k seen js)"

definition run_order :: "nat \<Rightarrow> (nat \<times> int) list \<Rightarrow> nat list" where
  "run_order k evs = first_runs k [] (map fst evs)"

section \<open>The cache routes of the server (\<open>src/routes/api.js\<close>)\<close>

text \<open>
  \<open>DB_CONFIG\<close>: the four collections and their expiry in hours.
\<close>

datatype collection = Channels | Videos | Categories | Playlists

definition collection_of :: "string \<Rightarrow> collection option" where
  "collection_of name =
     (if name = ''channels'' then Some Channels
      else if name = ''videos'' then Some Videos
      else if name = ''categories'' then Some Categories
      else if name = ''playlists'' then Some Playlists
      else None)"

fun cacheExpiry :: "collection \<Rightarrow> int" where
  "cacheExpiry Channels = 24"
| "cacheExpiry Videos = 12"
| "cacheExpiry Categories = 48"
| "cacheExpiry Playlists = 24"

definition HOUR_MS :: int where
  "HOUR_MS = 60 * 60 * 1000"

text \<open>
  A stored document, with the fields the routes read or write; a field that the document
  does not have is \<open>None\<close>. A MongoDB collection is the list of its documents in natural
  order, and the database maps each of the four collections to its documents.
\<close>

record cache_doc =
  doc_key :: string
  doc_collection :: "string option"
  expiresAt :: "int option"
  updatedAt :: "int option"
  cacheVersion :: "string option"
  doc_videos :: "json option"
  doc_channelId :: "json option"
  doc_uploadsPlaylistId :: "json option"
  doc_categories :: "json option"

type_synonym database = "collection \<Rightarrow> cache_doc list"

text \<open>What a route answers: the status with the error message, or the body of a 200.\<close>

datatype response =
    Error_response nat string
  | Data_doc cache_doc
  | Data_fields json
  | Stored int string

text \<open>
  The filter of both read routes:
  \<open>{key, $or: [{expiresAt: {$exists: false}}, {expiresAt: {$gt: now}}]}\<close>.
\<close>

definition live_match :: "string \<Rightarrow> int \<Rightarrow> cache_doc \<Rightarrow> bool" where
  "live_match key now d =
     (doc_key d = key \<and> (case expiresAt d of None \<Rightarrow> True | Some e \<Rightarrow> e > now))"

text \<open>The filter \<open>{key, expiresAt: {$lt: now}}\<close> of the clean-up after a miss.\<close>

definition expired_match :: "string \<Rightarrow> int \<Rightarrow> cache_doc \<Rightarrow> bool" where
  "expired_match key now d =
     (doc_key d = key \<and> (case expiresAt d of None \<Rightarrow> False | Some e \<Rightarrow> e < now))"

text \<open>\<open>findOne\<close> is \<open>find\<close>; \<open>deleteOne\<close> removes the first document that matches.\<close>

fun deleteOne :: "(cache_doc \<Rightarrow> bool) \<Rightarrow> cache_doc list \<Rightarrow> cache_doc list" where
  "deleteOne P [] = []"
| "deleteOne P (d # ds) = (if P d then ds else d # deleteOne P ds)"

text \<open>\<open>deleteMany({expiresAt: {$lt: now}})\<close>, the sweep of \<open>DELETE /cache/expired\<close> on one collection.\<close>

definition deleteMany_expired :: "int \<Rightarrow> cache_doc list \<Rightarrow> cache_doc list" where
  "deleteMany_expired now ds =
     filter (\<lambda>d. \<not> (case expiresAt d of None \<Rightarrow> False | Some e \<Rightarrow> e < now)) ds"

text \<open>
  \<open>getCacheMiddleware\<close> and \<open>cacheMiddleware\<close>: the collection named by the request, or the
  answer of the middleware (\<open>ensureConnection\<close> is taken to succeed). A missing or empty
  name, and a name for which \<open>DB_CONFIG.collections[collectionName]\<close> is \<open>undefined\<close>, are
  refused with status 400. For a name that \<open>DB_CONFIG.collections\<close> only inherits the test
  passes, and \<open>db.collection\<close> is handed a function or an object where it expects a name:
  no collection is selected and the request ends in a 500 answer, here the one of the
  middleware's \<open>catch\<close>.
\<close>

definition invalid_collection :: "string \<Rightarrow> response" where
  "invalid_collection shown_name =
     Error_response 400 (''Invalid or missing collection name: '' @ [CHR 0x27] @ shown_name @ [CHR 0x27])"

definition select_collection :: "string option \<Rightarrow> response + collection" where
  "select_collection collectionName =
     (case collectionName of
        None \<Rightarrow> Inl (invalid_collection ''undefined'')
      | Some name \<Rightarrow>
          (case collection_of name of
             None \<Rightarrow>
               if name \<in> set object_prototype_names
               then Inl (Error_response 500 ''Database connection error. Please try again.'')
               else Inl (invalid_collection name)
           | Some c \<Rightarrow> Inr c))"

text \<open>
  \<open>router.get('/cache')\<close> on the selected collection, at time \<open>now\<close>: the answer and the
  documents left. A missing or empty key is refused.
\<close>

definition get_cache_on :: "int \<Rightarrow> string option \<Rightarrow> cache_doc list \<Rightarrow> response \<times> cache_doc list" where
  "get_cache_on now key ds =
     (case key of
        None \<Rightarrow> (Error_response 400 ''Key is required'', ds)
      | Some k \<Rightarrow>
          if k = [] then (Error_response 400 ''Key is required'', ds)
          else
            (case find (live_match k now) ds of
               None \<Rightarrow> (Error_response 404 ''Cache not found'', deleteOne (expired_match k now) ds)
             | Some data \<Rightarrow> (Data_doc data, ds)))"

text \<open>The object \<open>dataToReturn\<close> of \<open>router.post('/cache/get')\<close>: the truthy recognised fields.\<close>

definition field_if_truthy :: "string \<Rightarrow> json option \<Rightarrow> (string \<times> json) list" where
  "field_if_truthy name v = (case v of None \<Rightarrow> [] | Some j \<Rightarrow> if truthy j then [(name, j)] else [])"

definition dataToReturn :: "cache_doc \<Rightarrow> json" where
  "dataToReturn doc =
     JObj (field_if_truthy ''videos'' (doc_videos doc)
         @ field_if_truthy ''channelId'' (doc_channelId doc)
         @ field_if_truthy ''uploadsPlaylistId'' (doc_uploadsPlaylistId doc)
         @ field_if_truthy ''categories'' (doc_categories doc))"

definition post_cache_get_on :: "int \<Rightarrow> string option \<Rightarrow> cache_doc list \<Rightarrow> response \<times> cache_doc list" where
  "post_cache_get_on now key ds =
     (case key of
        None \<Rightarrow> (Error_response 400 ''Key is required'', ds)
      | Some k \<Rightarrow>
          if k = [] then (Error_response 400 ''Key is required'', ds)
          else
            (case find (live_match k now) ds of
               None \<Rightarrow> (Error_response 404 ''Cache not found'', deleteOne (expired_match k now) ds)
             | Some doc \<Rightarrow> (Data_fields (dataToReturn doc), ds)))"

text \<open>The two read routes behind their middleware, on the whole database.\<close>

definition on_collection ::
  "(cache_doc list \<Rightarrow> response \<times> cache_doc list) \<Rightarrow> string option \<Rightarrow> database \<Rightarrow> response \<times> database" where
  "on_collection handler collectionName db =
     (case select_collection collectionName of
        Inl r \<Rightarrow> (r, db)
      | Inr c \<Rightarrow> (let (r, ds) = handler (db c) in (r, db(c := ds))))"

definition get_cache :: "int \<Rightarrow> string option \<Rightarrow> string option \<Rightarrow> database \<Rightarrow> response \<times> database" where
  "get_cache now collectionName key db = on_collection (get_cache_on now key) collectionName db"

definition post_cache_get :: "int \<Rightarrow> string option \<Rightarrow> string option \<Rightarrow> database \<Rightarrow> response \<times> database" where
  "post_cache_get now collectionName key db = on_collection (post_cache_get_on now key) collectionName db"

text \<open>
  \<open>updateOne({key}, {$set: cacheDoc}, {upsert: true})\<close>. \<open>$set\<close> assigns the fields of
  \<open>cacheDoc\<close> and leaves every other field of a matched document as it is; \<open>cacheDoc\<close>
  holds a recognised field only when the request's \<open>data\<close> has it truthy. Without a
  match the document is inserted. The result tells whether it was an insert.
\<close>

definition set_field :: "json \<Rightarrow> string \<Rightarrow> json option \<Rightarrow> json option" where
  "set_field data name old = (if truthy_prop data name then get_prop data name else old)"

definition apply_set :: "string \<Rightarrow> string \<Rightarrow> int \<Rightarrow> int \<Rightarrow> json \<Rightarrow> cache_doc \<Rightarrow> cache_doc" where
  "apply_set key collectionName expires now data d =
     d\<lparr>doc_key := key,
       doc_collection := Some collectionName,
       expiresAt := Some expires,
       updatedAt := Some now,
       cacheVersion := Some ''1.0'',
       doc_videos := set_field data ''videos'' (doc_videos d),
       doc_channelId := set_field data ''channelId'' (doc_channelId d),
       doc_uploadsPlaylistId := set_field data ''uploadsPlaylistId'' (doc_uploadsPlaylistId d),
       doc_categories := set_field data ''categories'' (doc_categories d)\<rparr>"

definition empty_doc :: "string \<Rightarrow> cache_doc" where
  "empty_doc key =
     \<lparr>doc_key = key, doc_collection = None, expiresAt = None, updatedAt = None, cacheVersion = None,
      doc_videos = None, doc_channelId = None, doc_uploadsPlaylistId = None, doc_categories = None\<rparr>"

fun updateOne_upsert :: "string \<Rightarrow> (cache_doc \<Rightarrow> cache_doc) \<Rightarrow> cache_doc list \<Rightarrow> bool \<times> cache_doc list" where
  "updateOne_upsert key upd [] = (True, [upd (empty_doc key)])"
| "updateOne_upsert key upd (d # ds) =
     (if doc_key d = key then (False, upd d # ds)
      else (let (ins, ds') = updateOne_upsert key upd ds in (ins, d # ds')))"

definition MAX_DATA_SIZE :: nat where
  "MAX_DATA_SIZE = 10 * 1024 * 1024"

text \<open>
  \<open>router.post('/cache')\<close> behind \<open>cacheMiddleware\<close>, at time \<open>now\<close>. \<open>stringify\<close> stands for
  \<open>JSON.stringify\<close>, whose result only matters by its length; \<open>failures\<close> is the number
  of calls of \<open>updateOne\<close> that throw before one succeeds, of which the route tries three.
  The key is a string (any other truthy key makes \<open>key.substring\<close> throw, which ends in
  the 500 answer), the two clock reads of the route are one instant, and \<open>setHours\<close> adds
  whole hours of 3600000 ms (the local clock does not change its offset in between).
\<close>

definition post_cache ::
  "(json \<Rightarrow> string) \<Rightarrow> int \<Rightarrow> nat \<Rightarrow> string option \<Rightarrow> json option \<Rightarrow> string option \<Rightarrow> database \<Rightarrow> response \<times> database" where
  "post_cache stringify now failures key data collectionName db =
     (case select_collection collectionName of
        Inl r \<Rightarrow> (r, db)
      | Inr c \<Rightarrow>
          (case (key, data, collectionName) of
             (Some k, Some dat, Some cname) \<Rightarrow>
               if k = [] \<or> \<not> truthy dat \<or> cname = []
               then (Error_response 400 ''Key, data, and collection are required'', db)
               else if length (stringify dat) > MAX_DATA_SIZE
               then (Error_response 413 ''Payload too large'', db)
               else if failures \<ge> 3
               then (Error_response 500 ''Failed to store cache'', db)
               else
                 (let expires = now + cacheExpiry c * HOUR_MS;
                      (inserted, ds) = updateOne_upsert k (apply_set k cname expires now dat) (db c)
                  in (Stored expires (if inserted then ''inserted'' else ''updated''), db(c := ds)))
           | _ \<Rightarrow> (Error_response 400 ''Key, data, and collection are required'', db)))"

text \<open>
  \<open>router.delete('/cache/expired')\<close>: each collection is swept at its own clock read.
\<close>

definition delete_cache_expired :: "(collection \<Rightarrow> int) \<Rightarrow> database \<Rightarrow> database" where
  "delete_cache_expired sweep_at db = (\<lambda>c. deleteMany_expired (sweep_at c) (db c))"

text \<open>The database in which nothing was ever stored under key \<open>k\<close>.\<close>

definition without_key :: "string \<Rightarrow> database \<Rightarrow> database" where
  "without_key k db = (\<lambda>c. filter (\<lambda>d. doc_key d \<noteq> k) (db c))"

text \<open>Every document stored under \<open>k\<close> has an \<open>expiresAt\<close> before \<open>now\<close>.\<close>

definition all_expired :: "string \<Rightarrow> int \<Rightarrow> cache_doc list \<Rightarrow> bool" where
  "all_expired k now ds = list_all (\<lambda>d. doc_key d = k \<longrightarrow> (case expiresAt d of None \<Rightarrow> False | Some e \<Rightarrow> e < now)) ds"


text \<open>The fields of \<open>data\<close> that \<open>router.post('/cache')\<close> stores: the truthy recognised ones.\<close>

definition recognised :: "json \<Rightarrow> json" where
  "recognised data =
     JObj (field_if_truthy ''videos'' (get_prop data ''videos'')
         @ field_if_truthy ''channelId'' (get_prop data ''channelId'')
         @ field_if_truthy ''uploadsPlaylistId'' (get_prop data ''uploadsPlaylistId'')
         @ field_if_truthy ''categories'' (get_prop data ''categories''))"

text \<open>The document that \<open>updateOne\<close> matches under a key, or the blank one it inserts into.\<close>

definition previous_doc :: "string \<Rightarrow> cache_doc list \<Rightarrow> cache_doc" where
  "previous_doc k ds = (case find (\<lambda>d. doc_key d = k) ds of None \<Rightarrow> empty_doc k | Some d \<Rightarrow> d)"

text \<open>
  Example data: a playlist entry that expired at time 100, a database holding only it, and
  two payloads of recognised fields.
\<close>

definition expired_playlist_doc :: cache_doc where
  "expired_playlist_doc = (empty_doc ''playlist_ABC'')\<lparr>expiresAt := Some 100, doc_videos := Some (JArr [JStr ''v1''])\<rparr>"

definition expired_db :: database where
  "expired_db = (\<lambda>c. if c = Playlists then [expired_playlist_doc] else [])"

text \<open>
  A playlist entry that expires at time 300, one that has no \<open>expiresAt\<close> at all, and a
  database holding both next to the expired one.
\<close>

definition fresh_playlist_doc :: cache_doc where
  "fresh_playlist_doc = (empty_doc ''playlist_NEW'')\<lparr>expiresAt := Some 300, doc_videos := Some (JArr [JStr ''v2''])\<rparr>"

definition undated_playlist_doc :: cache_doc where
  "undated_playlist_doc = (empty_doc ''playlist_OLD'')\<lparr>doc_videos := Some (JArr [JStr ''v3''])\<rparr>"

definition mixed_db :: database where
  "mixed_db = (\<lambda>c. if c = Playlists then [expired_playlist_doc, fresh_playlist_doc, undated_playlist_doc] else [])"

definition empty_db :: database where
  "empty_db = (\<lambda>c. [])"

definition videos_payload :: json where
  "videos_payload = JObj [(''videos'', JArr [JStr ''v1''])]"

definition channel_payload :: json where
  "channel_payload = JObj [(''channelId'', JStr ''UC1'')]"

definition short_stringify :: "json \<Rightarrow> string" where
  "short_stringify j = ''{}''"

section \<open>The cache client in the browser (\<open>services/cache.js\<close>)\<close>

text \<open>
  The browser reaches the routes with \<open>fetch\<close>. What the world does to one request is an
  input of the model: \<open>None\<close> when \<open>fetch\<close> rejects, otherwise the server's clock and, for a
  write, the number of failing \<open>updateOne\<close> calls.
\<close>

text \<open>
  \<open>getCachedData\<close>: the cached object, or \<open>null\<close> on a miss, on any other answer and on any
  thrown error.
\<close>

definition getCachedData :: "int option \<Rightarrow> string \<Rightarrow> string \<Rightarrow> database \<Rightarrow> json option \<times> database" where
  "getCachedData reach key collectionName db =
     (case reach of
        None \<Rightarrow> (None, db)
      | Some now \<Rightarrow>
          (case post_cache_get now (Some collectionName) (Some key) db of
             (Data_fields j, db') \<Rightarrow> (if truthy j then Some j else None, db')
           | (_, db') \<Rightarrow> (None, db')))"

text \<open>\<open>Array.isArray(x)\<close> and \<open>typeof x === 'object'\<close> for a truthy \<open>x\<close>.\<close>

fun isArray :: "json \<Rightarrow> bool" where
  "isArray (JArr xs) = True"
| "isArray _ = False"

fun truthy_object :: "json \<Rightarrow> bool" where
  "truthy_object (JArr xs) = True"
| "truthy_object (JObj kvs) = True"
| "truthy_object _ = False"

definition field_if :: "(json \<Rightarrow> bool) \<Rightarrow> string \<Rightarrow> json \<Rightarrow> (string \<times> json) list" where
  "field_if ok name data = (case get_prop data name of None \<Rightarrow> [] | Some j \<Rightarrow> if ok j then [(name, j)] else [])"

text \<open>The object \<open>validatedData\<close> that \<open>cacheData\<close> builds from its argument.\<close>

definition validatedData :: "json \<Rightarrow> (string \<times> json) list" where
  "validatedData data =
     field_if isArray ''videos'' data
   @ field_if truthy ''channelId'' data
   @ field_if truthy ''uploadsPlaylistId'' data
   @ field_if truthy_object ''categories'' data"

text \<open>
  The retry loop of \<open>cacheData\<close>: \<open>remaining\<close> attempts are left of \<open>maxAttempts = 3\<close>, and
  \<open>reach n\<close> is what happens to attempt number \<open>n\<close>. An answer that is not \<open>ok\<close> is thrown
  with its \<open>error\<close> text and caught by the loop; after the last attempt the last error is
  thrown to the caller (\<open>Inl\<close>).
\<close>

fun cacheData_loop ::
  "(json \<Rightarrow> string) \<Rightarrow> (nat \<Rightarrow> (int \<times> nat) option) \<Rightarrow> string \<Rightarrow> json \<Rightarrow> string \<Rightarrow> string \<Rightarrow> nat \<Rightarrow> database
     \<Rightarrow> (string + response) \<times> database" where
  "cacheData_loop stringify reach key vdata collectionName lastError 0 db = (Inl lastError, db)"
| "cacheData_loop stringify reach key vdata collectionName lastError (Suc remaining) db =
     (case reach (3 - Suc remaining) of
        None \<Rightarrow> cacheData_loop stringify reach key vdata collectionName ''Failed to fetch'' remaining db
      | Some (now, failures) \<Rightarrow>
          (case post_cache stringify now failures (Some key) (Some vdata) (Some collectionName) db of
             (Error_response status msg, db') \<Rightarrow>
               cacheData_loop stringify reach key vdata collectionName msg remaining db'
           | (result, db') \<Rightarrow> (Inr result, db')))"

definition cacheData ::
  "(json \<Rightarrow> string) \<Rightarrow> (nat \<Rightarrow> (int \<times> nat) option) \<Rightarrow> string \<Rightarrow> json \<Rightarrow> string \<Rightarrow> database
     \<Rightarrow> (string + response) \<times> database" where
  "cacheData stringify reach key data collectionName db =
     (if key = [] \<or> \<not> truthy data then (Inl ''Key and data are required for caching'', db)
      else if validatedData data = [] then (Inl ''No valid data to cache'', db)
      else cacheData_loop stringify reach key (JObj (validatedData data)) collectionName [] 3 db)"

text \<open>Example inputs: a serialiser whose output is one character over the limit, and a reachable server.\<close>

definition long_stringify :: "json \<Rightarrow> string" where
  "long_stringify j = replicate (Suc MAX_DATA_SIZE) CHR ''x''"

definition reach_always :: "nat \<Rightarrow> (int \<times> nat) option" where
  "reach_always n = Some (1000 + int n, 0)"

definition unrecognised_payload :: json where
  "unrecognised_payload = JObj [(''foo'', JNum 1)]"

section \<open>Resolving a channel handle (\<open>router.get('/resolve-handle')\<close>)\<close>

text \<open>
  A JavaScript string is the list of its UTF-16 code units, so that \<open>trim\<close> removes
  exactly what ECMAScript calls white space and line terminators.
\<close>

type_synonym code_units = "nat list"

definition js_whitespace :: "nat \<Rightarrow> bool" where
  "js_whitespace c =
     (c = 9 \<or> c = 10 \<or> c = 11 \<or> c = 12 \<or> c = 13 \<or> c = 32 \<or> c = 160 \<or> c = 5760
      \<or> (8192 \<le> c \<and> c \<le> 8202) \<or> c = 8232 \<or> c = 8233 \<or> c = 8239 \<or> c = 8287
      \<or> c = 12288 \<or> c = 65279)"

definition trim :: "code_units \<Rightarrow> code_units" where
  "trim s = rev (dropWhile js_whitespace (rev (dropWhile js_whitespace s)))"

definition AT_SIGN :: nat where
  "AT_SIGN = 64"

text \<open>\<open>handle.replace('@', '')\<close>: a string pattern replaces the first occurrence only.\<close>

definition replace_at :: "code_units \<Rightarrow> code_units" where
  "replace_at s = remove1 AT_SIGN s"

text \<open>The test \<open>/^[a-zA-Z0-9_-]{1,100}$/\<close>.\<close>

definition handle_char :: "nat \<Rightarrow> bool" where
  "handle_char c = ((97 \<le> c \<and> c \<le> 122) \<or> (65 \<le> c \<and> c \<le> 90) \<or> (48 \<le> c \<and> c \<le> 57) \<or> c = 95 \<or> c = 45)"

definition handle_pattern :: "code_units \<Rightarrow> bool" where
  "handle_pattern s = (1 \<le> length s \<and> length s \<le> 100 \<and> list_all handle_char s)"

definition units :: "string \<Rightarrow> code_units" where
  "units s = map of_char s"

text \<open>
  \<open>req.query.handle\<close> as the query parser of Express hands it to the route: a string for
  \<open>?handle=x\<close>, and an array or an object, with strings at the leaves, for a repeated
  parameter (\<open>?handle=a&handle=b\<close>) or a bracketed one (\<open>?handle[x]=1\<close>). The parameter is
  \<open>None\<close> when the query does not have it.
\<close>

datatype query_value = Q_string code_units | Q_structured

text \<open>
  What the route does with the parameter: it answers at once, it calls \<open>https.get\<close> on a
  URL, or it throws. An array or an object is truthy and has no method \<open>replace\<close>, so
  \<open>handle.replace('@', '')\<close> throws a \<open>TypeError\<close>; the statement stands before the \<open>try\<close> of
  the handler, so the promise of the \<open>async\<close> handler is rejected with no response sent
  and no request made.
\<close>

datatype resolve_step = Respond nat string | Https_get code_units | Throws string

definition resolve_handle :: "query_value option \<Rightarrow> resolve_step" where
  "resolve_handle handle =
     (case handle of
        None \<Rightarrow> Respond 400 ''Handle is required''
      | Some Q_structured \<Rightarrow> Throws ''TypeError: handle.replace is not a function''
      | Some (Q_string h) \<Rightarrow>
          if h = [] then Respond 400 ''Handle is required''
          else
            let cleanHandle = trim (replace_at h) in
            if \<not> handle_pattern cleanHandle then Respond 400 ''Invalid handle format''
            else Https_get (units ''https://www.youtube.com/@'' @ cleanHandle))"

text \<open>The handle with every \<open>@\<close> removed, trimmed.\<close>

definition without_ats :: "code_units \<Rightarrow> code_units" where
  "without_ats h = trim (filter (\<lambda>c. c \<noteq> AT_SIGN) h)"

section \<open>The YouTube client in the browser (\<open>services/youtube.js\<close>)\<close>

text \<open>
  \<open>router.post('/rotate-key')\<close>: the rotated key first, then the other keys; status 500,
  here \<open>Inl\<close>, when the rotation throws.
\<close>

definition rotate_key_route :: "string option list \<Rightarrow> int \<Rightarrow> key_state \<Rightarrow> ((string + string list) \<times> key_state) option" where
  "rotate_key_route env now s =
     (case rotateYoutubeKey env now s of
        None \<Rightarrow> None
      | Some (Inl e, s') \<Rightarrow> Some (Inl ''Failed to rotate key'', s')
      | Some (Inr newKey, s') \<Rightarrow>
          Some (Inr (newKey # filter (\<lambda>k. k \<noteq> newKey) (getYouTubeApiKeys env)), s'))"

text \<open>
  The browser's module state (\<open>currentApiKeys\<close>, and the channel set by \<open>setChannelInfo\<close>)
  together with the server's key state. \<open>rotations\<close> counts the rotate requests made so
  far; the server's clock at the \<open>n\<close>-th of them is given by a function \<open>clock\<close>.
\<close>

record world =
  currentApiKeys :: "string list"
  server :: key_state
  channelInfo :: "(string \<times> string) option"
  rotations :: nat

definition getCurrentApiKey :: "world \<Rightarrow> string option" where
  "getCurrentApiKey w = (case currentApiKeys w of [] \<Rightarrow> None | k # ks \<Rightarrow> Some k)"

text \<open>
  \<open>rotateApiKey\<close>: \<open>Inl\<close> is the error it throws. The request is taken to reach the server;
  \<open>None\<close> is a request that is never answered.
\<close>

definition rotateApiKey :: "string option list \<Rightarrow> (nat \<Rightarrow> int) \<Rightarrow> world \<Rightarrow> ((string + string option) \<times> world) option" where
  "rotateApiKey env clock w =
     (case rotate_key_route env (clock (rotations w)) (server w) of
        None \<Rightarrow> None
      | Some (Inl e, s') \<Rightarrow>
          Some (Inl ''Failed to rotate API key'', w\<lparr>server := s', rotations := Suc (rotations w)\<rparr>)
      | Some (Inr keys, s') \<Rightarrow>
          (let w' = w\<lparr>currentApiKeys := keys, server := s', rotations := Suc (rotations w)\<rparr>
           in Some (Inr (getCurrentApiKey w'), w')))"







text \<open>The browser after \<open>initConfig\<close> and the server after \<open>initializeKeyTracking\<close>.\<close>

definition initial_world :: "string option list \<Rightarrow> int \<Rightarrow> world" where
  "initial_world env t0 =
     \<lparr>currentApiKeys = getYouTubeApiKeys env, server = initializeKeyTracking env t0,
      channelInfo = None, rotations = 0\<rparr>"



section \<open>Categorising videos in batches (\<open>services/gemini.js\<close>)\<close>

text \<open>
  A video of \<open>globalState.videos\<close>, with the fields that \<open>categorizeVideos\<close> reads.
\<close>

record video =
  video_id :: string
  title :: string
  playlistId :: "string option"

text \<open>
  \<open>batchCategories\<close> and \<open>allCategories\<close> are plain objects whose values are arrays of
  videos: here the list of their own properties in the order of creation. (JavaScript
  enumerates names that look like array indices first; nothing below depends on the
  order of the names.) Reading a name that \<open>Object.prototype\<close> defines yields the
  inherited, truthy value even when the object has no such property of its own.
\<close>

type_synonym categories = "(string \<times> video list) list"

text \<open>\<open>if (!obj[name]) obj[name] = []\<close>.\<close>

definition ensure_category :: "string \<Rightarrow> categories \<Rightarrow> categories" where
  "ensure_category name cats =
     (if name \<in> set object_prototype_names \<or> name \<in> set (map fst cats) then cats
      else cats @ [(name, [])])"

text \<open>\<open>obj[name].push(...vs)\<close> on an own property.\<close>

definition append_videos :: "string \<Rightarrow> video list \<Rightarrow> categories \<Rightarrow> categories" where
  "append_videos name vs cats = map (\<lambda>(k, ws). if k = name then (k, ws @ vs) else (k, ws)) cats"

text \<open>
  \<open>batchCategories[categoryName].push(originalVideo)\<close>, after the line above has run: where
  the name is not an own property it is an inherited one, whose value has no \<open>push\<close>.
\<close>

definition push_video :: "string \<Rightarrow> video \<Rightarrow> categories \<Rightarrow> string + categories" where
  "push_video name v cats =
     (if name \<in> set (map fst cats) then Inr (append_videos name [v] cats)
      else Inl ''TypeError: batchCategories[categoryName].push is not a function'')"

text \<open>\<open>String(x)\<close>, which turns a category name into a property key.\<close>

function digits :: "nat \<Rightarrow> string" where
  "digits n = (if n < 10 then [char_of (48 + n)] else digits (n div 10) @ [char_of (48 + n mod 10)])"
  by pat_completeness auto
termination
  by (relation "measure id") auto

fun comma_join :: "string list \<Rightarrow> string" where
  "comma_join [] = []"
| "comma_join [s] = s"
| "comma_join (s # t # ss) = s @ '','' @ comma_join (t # ss)"

fun js_to_string :: "json \<Rightarrow> string" where
  "js_to_string JNull = ''null''"
| "js_to_string (JBool b) = (if b then ''true'' else ''false'')"
| "js_to_string (JNum n) = (if n < 0 then ''-'' @ digits (nat (- n)) else digits (nat n))"
| "js_to_string (JStr s) = s"
| "js_to_string (JArr xs) = comma_join (map (\<lambda>x. if x = JNull then [] else js_to_string x) xs)"
| "js_to_string (JObj kvs) = ''[object Object]''"

text \<open>
  One element of the parsed answer that passes
  \<open>if (!categoryName || !Array.isArray(categoryObj.videos)) return\<close>: its property key and
  its \<open>videos\<close>.
\<close>

definition valid_group :: "json \<Rightarrow> (string \<times> json list) option" where
  "valid_group categoryObj =
     (case get_prop categoryObj ''category'' of
        None \<Rightarrow> None
      | Some categoryName \<Rightarrow>
          if \<not> truthy categoryName then None
          else (case get_prop categoryObj ''videos'' of
                  Some (JArr infos) \<Rightarrow> Some (js_to_string categoryName, infos)
                | _ \<Rightarrow> None))"

text \<open>
  \<open>categoryObj.videos.forEach\<close>: each \<open>videoInfo\<close> is looked up by
  \<open>videos.find(v => v.title === videoInfo.title)\<close>, where \<open>videos\<close> is the whole input
  list. Reading \<open>title\<close> of \<open>null\<close> throws.
\<close>

fun resolve_videos :: "video list \<Rightarrow> string \<Rightarrow> json list \<Rightarrow> categories \<Rightarrow> string + categories" where
  "resolve_videos videos name [] cats = Inr cats"
| "resolve_videos videos name (videoInfo # rest) cats =
     (if videoInfo = JNull then Inl ''TypeError: Cannot read properties of null''
      else
        (case find (\<lambda>v. get_prop videoInfo ''title'' = Some (JStr (title v))) videos of
           None \<Rightarrow> resolve_videos videos name rest cats
         | Some originalVideo \<Rightarrow>
             (case push_video name originalVideo cats of
                Inl e \<Rightarrow> Inl e
              | Inr cats' \<Rightarrow> resolve_videos videos name rest cats')))"

text \<open>\<open>parsedCategories.forEach\<close>.\<close>

fun group_categories :: "video list \<Rightarrow> json list \<Rightarrow> categories \<Rightarrow> string + categories" where
  "group_categories videos [] cats = Inr cats"
| "group_categories videos (categoryObj # rest) cats =
     (if categoryObj = JNull then Inl ''TypeError: Cannot read properties of null''
      else
        (case valid_group categoryObj of
           None \<Rightarrow> group_categories videos rest cats
         | Some (name, infos) \<Rightarrow>
             (case resolve_videos videos name infos (ensure_category name cats) of
                Inl e \<Rightarrow> Inl e
              | Inr cats' \<Rightarrow> group_categories videos rest cats')))"

text \<open>
  What comes back for one batch: the request or the shape of the answer makes the batch
  throw; or \<open>JSON.parse\<close> throws, which the batch catches; or the parsed value.
\<close>

datatype chunk_reply = Request_fails string | Unparsable | Parsed json

text \<open>
  The body of one \<open>batchPromise\<close> after the answer has arrived: the rejection message, or
  \<open>batchCategories\<close>. It is given the whole list \<open>videos\<close>; the slice \<open>batchVideos\<close> only
  went into the prompt.
\<close>

definition processBatch :: "video list \<Rightarrow> chunk_reply \<Rightarrow> string + categories" where
  "processBatch videos reply =
     (case reply of
        Request_fails msg \<Rightarrow> Inl msg
      | Unparsable \<Rightarrow> Inr []
      | Parsed (JArr groups) \<Rightarrow> group_categories videos groups []
      | Parsed _ \<Rightarrow> Inl ''TypeError: parsedCategories.forEach is not a function'')"

definition BATCH_SIZE :: nat where
  "BATCH_SIZE = 200"

definition MAX_PARALLEL :: nat where
  "MAX_PARALLEL = 3"

text \<open>\<open>Math.ceil(videos.length / BATCH_SIZE)\<close> and \<open>videos.slice(start, end)\<close>.\<close>

definition totalBatches :: "video list \<Rightarrow> nat" where
  "totalBatches videos = (length videos + BATCH_SIZE - 1) div BATCH_SIZE"

definition batchVideos :: "video list \<Rightarrow> nat \<Rightarrow> video list" where
  "batchVideos videos i = take BATCH_SIZE (drop (i * BATCH_SIZE) videos)"

text \<open>
  \<open>Promise.all\<close>: all results, or a rejection (the one of the lowest index stands for
  the one that happens first).
\<close>

fun promise_all :: "(string + categories) list \<Rightarrow> string + categories list" where
  "promise_all [] = Inr []"
| "promise_all (Inl e # ps) = Inl e"
| "promise_all (Inr c # ps) = (case promise_all ps of Inl e \<Rightarrow> Inl e | Inr cs \<Rightarrow> Inr (c # cs))"

text \<open>The merge of one batch's categories into \<open>allCategories\<close>, and of a wave of batches.\<close>

fun merge_batch :: "categories \<Rightarrow> categories \<Rightarrow> categories" where
  "merge_batch [] allCategories = allCategories"
| "merge_batch ((name, vs) # batchCategories) allCategories =
     merge_batch batchCategories (append_videos name vs (ensure_category name allCategories))"

fun merge_results :: "categories list \<Rightarrow> categories \<Rightarrow> categories" where
  "merge_results [] allCategories = allCategories"
| "merge_results (batchCategories # results) allCategories =
     merge_results results (merge_batch batchCategories allCategories)"

text \<open>
  The \<open>for\<close> loop over the batch indices still to start: \<open>pending\<close> is \<open>batchPromises\<close>.
  \<open>replies i\<close> is what the classifier sends back for batch \<open>i\<close>.
\<close>

fun run_batches ::
  "video list \<Rightarrow> (nat \<Rightarrow> chunk_reply) \<Rightarrow> nat \<Rightarrow> nat list \<Rightarrow> (string + categories) list \<Rightarrow> categories
     \<Rightarrow> string + categories" where
  "run_batches videos replies nbatches [] pending allCategories = Inr allCategories"
| "run_batches videos replies nbatches (i # rest) pending allCategories =
     (let batchPromises = pending @ [processBatch videos (replies i)] in
      if length batchPromises \<ge> MAX_PARALLEL \<or> i = nbatches - 1
      then (case promise_all batchPromises of
              Inl e \<Rightarrow> Inl e
            | Inr results \<Rightarrow> run_batches videos replies nbatches rest [] (merge_results results allCategories))
      else run_batches videos replies nbatches rest batchPromises allCategories)"

definition dispatch :: "video list \<Rightarrow> (nat \<Rightarrow> chunk_reply) \<Rightarrow> string + categories" where
  "dispatch videos replies =
     run_batches videos replies (totalBatches videos) [0..<totalBatches videos] [] []"

text \<open>
  All videos held by a categories object, and the titles that an answer names in the
  groups that pass the guard; these state what ends up in the result.
\<close>

definition items :: "categories \<Rightarrow> video list" where
  "items cats = concat (map snd cats)"

definition info_titles :: "json list \<Rightarrow> string list" where
  "info_titles infos =
     concat (map (\<lambda>videoInfo. case get_prop videoInfo ''title'' of Some (JStr t) \<Rightarrow> [t] | _ \<Rightarrow> []) infos)"

definition group_titles :: "json list \<Rightarrow> string list" where
  "group_titles groups =
     concat (map (\<lambda>categoryObj. case valid_group categoryObj of None \<Rightarrow> [] | Some (name, infos) \<Rightarrow> info_titles infos) groups)"

definition reply_titles :: "chunk_reply \<Rightarrow> string list" where
  "reply_titles reply = (case reply of Parsed (JArr groups) \<Rightarrow> group_titles groups | _ \<Rightarrow> [])"

definition returned_titles :: "video list \<Rightarrow> (nat \<Rightarrow> chunk_reply) \<Rightarrow> string list" where
  "returned_titles videos replies = concat (map (\<lambda>i. reply_titles (replies i)) [0..<totalBatches videos])"

text \<open>
  What a list of titles resolves to against a list of videos: for each title in turn the
  first video of the list that carries it, and nothing for a title that no video carries.
\<close>

definition resolve_titles :: "video list \<Rightarrow> string list \<Rightarrow> video list" where
  "resolve_titles videos ts =
     concat (map (\<lambda>t. case find (\<lambda>w. title w = t) videos of None \<Rightarrow> [] | Some v \<Rightarrow> [v]) ts)"

text \<open>The titles that an answer names in the groups whose property key is \<open>name\<close>.\<close>

definition titles_under :: "string \<Rightarrow> json list \<Rightarrow> string list" where
  "titles_under name groups =
     concat (map (\<lambda>categoryObj. case valid_group categoryObj of
                     None \<Rightarrow> []
                   | Some (n, infos) \<Rightarrow> if n = name then info_titles infos else []) groups)"

definition reply_titles_under :: "string \<Rightarrow> chunk_reply \<Rightarrow> string list" where
  "reply_titles_under name reply = (case reply of Parsed (JArr groups) \<Rightarrow> titles_under name groups | _ \<Rightarrow> [])"

text \<open>The video is the first of the input list that carries its title.\<close>

definition first_with_title :: "video list \<Rightarrow> video \<Rightarrow> bool" where
  "first_with_title videos v = (find (\<lambda>w. title w = title v) videos = Some v)"

text \<open>The videos that a settled batch promise holds: none when it was rejected.\<close>

definition settled_items :: "string + categories \<Rightarrow> video list" where
  "settled_items p = (case p of Inl e \<Rightarrow> [] | Inr c \<Rightarrow> items c)"

text \<open>
  Example inputs: 201 videos, the first and the last of which share the title \<open>T\<close>, so
  that they fall into different batches; and answers that name \<open>T\<close>.
\<close>

definition first_T :: video where
  "first_T = \<lparr>video_id = ''a'', title = ''T'', playlistId = None\<rparr>"

definition last_T :: video where
  "last_T = \<lparr>video_id = ''b'', title = ''T'', playlistId = None\<rparr>"

definition filler_video :: video where
  "filler_video = \<lparr>video_id = ''f'', title = ''F'', playlistId = None\<rparr>"

definition two_chunk_videos :: "video list" where
  "two_chunk_videos = first_T # replicate 199 filler_video @ [last_T]"

definition group_of :: "string \<Rightarrow> string list \<Rightarrow> json" where
  "group_of name titles =
     JObj [(''category'', JStr name), (''videos'', JArr (map (\<lambda>t. JObj [(''title'', JStr t)]) titles))]"

definition answer_T_in_A :: chunk_reply where
  "answer_T_in_A = Parsed (JArr [group_of ''A'' [''T'']])"

definition answer_T_twice :: chunk_reply where
  "answer_T_twice = Parsed (JArr [group_of ''A'' [''T''], group_of ''B'' [''T'']])"

definition answer_T_and_unknown :: chunk_reply where
  "answer_T_and_unknown = Parsed (JArr [group_of ''A'' [''Z'', ''T'']])"

definition answer_none :: chunk_reply where
  "answer_none = Parsed (JArr [])"

definition replies_second_names_T :: "nat \<Rightarrow> chunk_reply" where
  "replies_second_names_T i = (if i = 1 then answer_T_in_A else answer_none)"

subsection \<open>The whole of \<open>categorizeVideos\<close>\<close>

text \<open>
  The cache key: by playlist when the first video carries a \<open>playlistId\<close>, otherwise the
  sorted video ids joined by commas.
\<close>

definition categorizationKey :: "video list \<Rightarrow> string" where
  "categorizationKey videos =
     (case playlistId (hd videos) of
        Some p \<Rightarrow> if p \<noteq> [] then ''categorization_playlist_'' @ p
                  else ''categorization_videos_'' @ comma_join (sort (map video_id videos))
      | None \<Rightarrow> ''categorization_videos_'' @ comma_join (sort (map video_id videos)))"

text \<open>The payload \<open>{ categories: allCategories }\<close> as JSON, a video by the fields modelled here.\<close>

definition json_of_video :: "video \<Rightarrow> json" where
  "json_of_video v = JObj [(''id'', JStr (video_id v)), (''title'', JStr (title v))]"

definition json_of_categories :: "categories \<Rightarrow> json" where
  "json_of_categories cats = JObj (map (\<lambda>(name, vs). (name, JArr (map json_of_video vs))) cats)"

text \<open>What the user gets to see: the categories on the screen, or a toast.\<close>

datatype shown =
    Displayed categories
  | Displayed_cached json
  | Toast_warning string
  | Toast_error string

text \<open>
  \<open>categorizeVideos\<close> on a non-empty or empty \<open>globalState.videos\<close>. \<open>reach_get\<close> and
  \<open>reach_put\<close> say what happens to the requests of \<open>getCachedData\<close> and \<open>cacheData\<close>. The
  call of \<open>cacheData\<close> is awaited inside the \<open>try\<close> block and before \<open>displayCategories\<close>.
\<close>

definition categorizeVideos ::
  "(json \<Rightarrow> string) \<Rightarrow> int option \<Rightarrow> (nat \<Rightarrow> (int \<times> nat) option) \<Rightarrow> video list \<Rightarrow> (nat \<Rightarrow> chunk_reply)
     \<Rightarrow> database \<Rightarrow> shown \<times> database" where
  "categorizeVideos stringify reach_get reach_put videos replies db =
     (if videos = [] then (Toast_warning ''No videos to categorize. Please load some videos first.'', db)
      else
        let categorizationKey = categorizationKey videos;
            (cachedCategories, db1) = getCachedData reach_get categorizationKey ''categories'' db
        in
          (case (case cachedCategories of None \<Rightarrow> None
                 | Some j \<Rightarrow> if truthy_prop j ''categories'' then get_prop j ''categories'' else None) of
             Some cats \<Rightarrow> (Displayed_cached cats, db1)
           | None \<Rightarrow>
               (case dispatch videos replies of
                  Inl e \<Rightarrow> (Toast_error (''Failed to categorize videos: '' @ e), db1)
                | Inr allCategories \<Rightarrow>
                    if allCategories = []
                    then (Toast_error ''Failed to categorize videos: No categories were generated.'', db1)
                    else
                      (case cacheData stringify reach_put categorizationKey
                              (JObj [(''categories'', json_of_categories allCategories)]) ''categories'' db1 of
                         (Inl e, db2) \<Rightarrow> (Toast_error (''Failed to categorize videos: '' @ e), db2)
                       | (Inr stored, db2) \<Rightarrow> (Displayed allCategories, db2)))))"

text \<open>Example: every write request reaches a server whose store fails on all three tries.\<close>

definition reach_store_down :: "nat \<Rightarrow> (int \<times> nat) option" where
  "reach_store_down n = Some (2000 + int n, 3)"

subsection \<open>Loading a playlist (\<open>loadPlaylistData\<close>)\<close>

text \<open>
  What the YouTube API answers to a \<open>playlistItems\<close> request (by key and page token) and
  to a \<open>videos\<close> request (by key and the comma-joined ids). A page that is \<open>ok\<close> carries
  its items, each with the video id it may have, and the token of the next page.
\<close>

datatype page_reply =
    Page_throws string
  | Page_error "string option"
  | Page_ok "string option list" "string option"

datatype stats_reply =
    Stats_throws string
  | Stats_error "string option"
  | Stats_ok "json list option"

text \<open>\<open>error.message\<close> is there, non-empty and contains \<open>quota\<close>.\<close>

definition quota_message :: "string option \<Rightarrow> bool" where
  "quota_message m = (case m of None \<Rightarrow> False | Some msg \<Rightarrow> msg \<noteq> [] \<and> js_includes msg ''quota'')"

text \<open>\<open>items.map(item => item.snippet?.resourceId?.videoId).filter(Boolean).join(',')\<close>.\<close>

definition joined_ids :: "string option list \<Rightarrow> string" where
  "joined_ids item_ids =
     comma_join (concat (map (\<lambda>i. case i of None \<Rightarrow> [] | Some s \<Rightarrow> if s = [] then [] else [s]) item_ids))"

text \<open>
  The fetch of the details of one page's videos: the error thrown, or \<open>allVideos\<close> after
  it. An answer that is not \<open>ok\<close> and not about quota is passed over.
\<close>

definition page_videos :: "(string option \<Rightarrow> string \<Rightarrow> stats_reply) \<Rightarrow> string option \<Rightarrow> string \<Rightarrow> json list \<Rightarrow> string + json list" where
  "page_videos stats key videoIds allVideos =
     (if videoIds = [] then Inr allVideos
      else
        (case stats key videoIds of
           Stats_throws msg \<Rightarrow> Inl msg
         | Stats_error m \<Rightarrow> if quota_message m then Inl ''quota exceeded'' else Inr allVideos
         | Stats_ok None \<Rightarrow> Inr allVideos
         | Stats_ok (Some vs) \<Rightarrow> Inr (allVideos @ vs)))"

text \<open>
  The \<open>do ... while (nextPageToken)\<close> loop, from the page with the given token on: the
  error thrown inside it, or \<open>allVideos\<close> at its end. Nothing bounds the number of pages.
\<close>

partial_function (option) fetch_pages ::
  "(string option \<Rightarrow> string \<Rightarrow> page_reply) \<Rightarrow> (string option \<Rightarrow> string \<Rightarrow> stats_reply) \<Rightarrow> string option \<Rightarrow> string
     \<Rightarrow> json list \<Rightarrow> (string + json list) option" where
  "fetch_pages pages stats key nextPageToken allVideos =
     (case pages key nextPageToken of
        Page_throws msg \<Rightarrow> Some (Inl msg)
      | Page_error m \<Rightarrow>
          Some (Inl (if quota_message m then ''quota exceeded''
                     else (case m of None \<Rightarrow> ''Failed to fetch playlist items''
                           | Some msg \<Rightarrow> if msg = [] then ''Failed to fetch playlist items'' else msg)))
      | Page_ok item_ids next \<Rightarrow>
          if item_ids = [] then Some (Inr allVideos)
          else
            (case page_videos stats key (joined_ids item_ids) allVideos of
               Inl e \<Rightarrow> Some (Inl e)
             | Inr allVideos' \<Rightarrow>
                 (case next of
                    None \<Rightarrow> Some (Inr allVideos')
                  | Some token \<Rightarrow>
                      if token = [] then Some (Inr allVideos')
                      else fetch_pages pages stats key token allVideos')))"

text \<open>
  The state that \<open>loadPlaylistData\<close> works on: the key state of the browser and the
  server, the cache database, and the videos handed to \<open>setVideos\<close>.
\<close>

record session =
  key_world :: world
  cache_db :: database
  loaded_videos :: "json list option"

text \<open>
  The oracles of one run: the two API endpoints, the server clock at each rotation, and
  what happens to the cache read of each attempt and to the cache write requests.
\<close>

record outside =
  out_pages :: "string option \<Rightarrow> string \<Rightarrow> page_reply"
  out_stats :: "string option \<Rightarrow> string \<Rightarrow> stats_reply"
  out_clock :: "nat \<Rightarrow> int"
  out_reach_get :: "nat \<Rightarrow> int option"
  out_reach_put :: "nat \<Rightarrow> (int \<times> nat) option"
  out_stringify :: "json \<Rightarrow> string"

text \<open>
  \<open>loadPlaylistData\<close>. After \<open>setVideos\<close> the result is cached "in the background": the
  promise of \<open>cacheData\<close> is not awaited, its outcome is only logged, and the function
  returns whatever that outcome is. The \<open>catch\<close> block rotates and calls the function
  again on every error whose message contains \<open>quota\<close>.
\<close>

partial_function (option) loadPlaylistData ::
  "string option list \<Rightarrow> outside \<Rightarrow> string \<Rightarrow> session \<Rightarrow> ((string + unit) \<times> session) option" where
  "loadPlaylistData env out plid s =
     (case getCachedData (out_reach_get out (rotations (key_world s))) (''playlist_'' @ plid) ''playlists'' (cache_db s) of
        (cachedData, db1) \<Rightarrow>
          (case (case cachedData of None \<Rightarrow> None
                 | Some j \<Rightarrow> if truthy_prop j ''videos'' then get_prop j ''videos'' else None) of
             Some (JArr vs) \<Rightarrow> Some (Inr (), s\<lparr>cache_db := db1, loaded_videos := Some vs\<rparr>)
           | Some other \<Rightarrow> Some (Inl ''TypeError: cachedData.videos.map is not a function'', s\<lparr>cache_db := db1\<rparr>)
           | None \<Rightarrow>
               (case fetch_pages (out_pages out) (out_stats out) (getCurrentApiKey (key_world s)) [] [] of
                  None \<Rightarrow> None
                | Some (Inr allVideos) \<Rightarrow>
                    if allVideos = []
                    then Some (Inl ''No videos found in this playlist'', s\<lparr>cache_db := db1\<rparr>)
                    else
                      (case cacheData (out_stringify out) (out_reach_put out) (''playlist_'' @ plid)
                              (JObj [(''videos'', JArr allVideos)]) ''playlists'' db1 of
                         (logged, db2) \<Rightarrow> Some (Inr (), s\<lparr>cache_db := db2, loaded_videos := Some allVideos\<rparr>))
                | Some (Inl msg) \<Rightarrow>
                    if js_includes msg ''quota''
                    then (case rotateApiKey env (out_clock out) (key_world s) of
                            None \<Rightarrow> None
                          | Some (Inl e, w') \<Rightarrow> Some (Inl e, s\<lparr>key_world := w', cache_db := db1\<rparr>)
                          | Some (Inr key, w') \<Rightarrow> loadPlaylistData env out plid (s\<lparr>key_world := w', cache_db := db1\<rparr>))
                    else Some (Inl (if msg = [] then ''Failed to load playlist data'' else msg), s\<lparr>cache_db := db1\<rparr>))))"




text \<open>Example: a playlist of one page with one video, on a key within quota.\<close>

definition one_page_outside :: "(nat \<Rightarrow> (int \<times> nat) option) \<Rightarrow> outside" where
  "one_page_outside put =
     \<lparr>out_pages = (\<lambda>key token. Page_ok [Some ''v1''] None),
      out_stats = (\<lambda>key ids. Stats_ok (Some [JObj [(''id'', JStr ''v1'')]])),
      out_clock = (\<lambda>n. 0),
      out_reach_get = (\<lambda>n. Some 1000),
      out_reach_put = put,
      out_stringify = short_stringify\<rparr>"


definition initial_session :: "string option list \<Rightarrow> session" where
  "initial_session env = \<lparr>key_world = initial_world env 0, cache_db = empty_db, loaded_videos = None\<rparr>"

section \<open>Properties of key rotation\<close>

lemma rotate_body_index:
  "getYouTubeApiKeys env \<noteq> [] \<Longrightarrow>
   currentKeyIndex (snd (rotate_body env now s)) = (currentKeyIndex s + 1) mod length (getYouTubeApiKeys env)"
  by (simp add: rotate_body_def Let_def split: option.splits)

lemma rotate_body_lock:
  "keyRotationLock (snd (rotate_body env now s)) = keyRotationLock s"
  by (simp add: rotate_body_def Let_def split: option.splits)

lemma rotate_body_result:
  "getYouTubeApiKeys env \<noteq> [] \<Longrightarrow>
   fst (rotate_body env now s) =
     Inr (getYouTubeApiKeys env ! ((currentKeyIndex s + 1) mod length (getYouTubeApiKeys env)))"
  by (simp add: rotate_body_def Let_def split: option.splits)

lemma rotate_body_empty:
  "getYouTubeApiKeys env = [] \<Longrightarrow> rotate_body env now s = (Inl ''No YouTube API keys available'', s)"
  by (simp add: rotate_body_def)

lemma rotateYoutubeKey_free:
  assumes "\<not> keyRotationLock s"
  shows "\<exists>r s'. rotateYoutubeKey env now s = Some (r, s') \<and> \<not> keyRotationLock s'
           \<and> r = fst (rotate_body env now (s\<lparr>keyRotationLock := True\<rparr>))
           \<and> currentKeyIndex s' = currentKeyIndex (snd (rotate_body env now (s\<lparr>keyRotationLock := True\<rparr>)))"
  using assms by (simp add: rotateYoutubeKey_def split: prod.splits)

lemma rotateYoutubeKey_index:
  assumes "\<not> keyRotationLock s" and "getYouTubeApiKeys env \<noteq> []"
  shows "\<exists>s'. rotateYoutubeKey env now s =
            Some (Inr (getYouTubeApiKeys env ! ((currentKeyIndex s + 1) mod length (getYouTubeApiKeys env))), s')
          \<and> \<not> keyRotationLock s'
          \<and> currentKeyIndex s' = (currentKeyIndex s + 1) mod length (getYouTubeApiKeys env)"
proof -
  obtain r s' where h: "rotateYoutubeKey env now s = Some (r, s')" "\<not> keyRotationLock s'"
    "r = fst (rotate_body env now (s\<lparr>keyRotationLock := True\<rparr>))"
    "currentKeyIndex s' = currentKeyIndex (snd (rotate_body env now (s\<lparr>keyRotationLock := True\<rparr>)))"
    using rotateYoutubeKey_free [OF assms(1)] by blast
  from h(3) have "r = Inr (getYouTubeApiKeys env ! ((currentKeyIndex s + 1) mod length (getYouTubeApiKeys env)))"
    by (simp add: rotate_body_result [OF assms(2)])
  moreover from h(4) have "currentKeyIndex s' = (currentKeyIndex s + 1) mod length (getYouTubeApiKeys env)"
    by (simp add: rotate_body_index [OF assms(2)])
  ultimately show ?thesis using h(1,2) by simp
qed

lemma rotate_seq_index:
  assumes "getYouTubeApiKeys env \<noteq> []"
  shows "\<not> keyRotationLock s \<Longrightarrow> currentKeyIndex s < length (getYouTubeApiKeys env) \<Longrightarrow>
         \<exists>s'. rotate_seq env nows s = Some s' \<and> \<not> keyRotationLock s'
            \<and> currentKeyIndex s' = (currentKeyIndex s + length nows) mod length (getYouTubeApiKeys env)"
proof (induction nows arbitrary: s)
  case Nil
  then show ?case by simp
next
  case (Cons now nows)
  obtain s1 where s1: "rotateYoutubeKey env now s =
        Some (Inr (getYouTubeApiKeys env ! ((currentKeyIndex s + 1) mod length (getYouTubeApiKeys env))), s1)"
      "\<not> keyRotationLock s1"
      "currentKeyIndex s1 = (currentKeyIndex s + 1) mod length (getYouTubeApiKeys env)"
    using rotateYoutubeKey_index [OF Cons.prems(1) assms] by blast
  have "currentKeyIndex s1 < length (getYouTubeApiKeys env)"
    using s1(3) assms by simp
  from Cons.IH [OF s1(2) this]
  obtain s' where s': "rotate_seq env nows s1 = Some s'" "\<not> keyRotationLock s'"
      "currentKeyIndex s' = (currentKeyIndex s1 + length nows) mod length (getYouTubeApiKeys env)"
    by blast
  have "currentKeyIndex s' = (currentKeyIndex s + length (now # nows)) mod length (getYouTubeApiKeys env)"
    using s'(3) s1(3) by (simp add: mod_simps)
  then show ?case using s1(1) s'(1,2) by simp
qed

lemma keys_env_three_keys: "getYouTubeApiKeys env_three_keys = [''k1'', ''k2'', ''k3'']"
  by (simp add: getYouTubeApiKeys_def env_three_keys_def)

lemma keys_env_no_keys: "getYouTubeApiKeys env_no_keys = []"
  by (simp add: getYouTubeApiKeys_def env_no_keys_def)

lemma init_lock_free: "\<not> keyRotationLock (initializeKeyTracking env t0)"
  by (simp add: initializeKeyTracking_def)

lemma init_index: "currentKeyIndex (initializeKeyTracking env t0) = 0"
  by (simp add: initializeKeyTracking_def)

text \<open>
  Claim C9. A rotation that finds the lock free on a non-empty pool returns the key at
  \<open>(currentKeyIndex + 1) mod n\<close> and leaves \<open>currentKeyIndex\<close> there; \<open>n\<close> rotations in a
  row, \<open>n\<close> the number of configured keys, bring an index inside the pool back to where it
  started; on an empty pool the rotation throws \<open>No YouTube API keys available\<close> and
  changes nothing.
\<close>

theorem rotate_advances_and_wraps:
  assumes "\<not> keyRotationLock s"
  shows "(getYouTubeApiKeys env \<noteq> [] \<longrightarrow>
            (\<exists>s'. rotateYoutubeKey env now s =
                Some (Inr (getYouTubeApiKeys env ! ((currentKeyIndex s + 1) mod length (getYouTubeApiKeys env))), s')
              \<and> currentKeyIndex s' = (currentKeyIndex s + 1) mod length (getYouTubeApiKeys env)))
       \<and> (getYouTubeApiKeys env \<noteq> [] \<and> currentKeyIndex s < length (getYouTubeApiKeys env)
            \<and> length nows = length (getYouTubeApiKeys env) \<longrightarrow>
            (\<exists>s'. rotate_seq env nows s = Some s' \<and> currentKeyIndex s' = currentKeyIndex s))
       \<and> (getYouTubeApiKeys env = [] \<longrightarrow>
            rotateYoutubeKey env now s = Some (Inl ''No YouTube API keys available'', s))"
proof (intro conjI impI)
  assume "getYouTubeApiKeys env \<noteq> []"
  from rotateYoutubeKey_index [OF assms this]
  show "\<exists>s'. rotateYoutubeKey env now s =
                Some (Inr (getYouTubeApiKeys env ! ((currentKeyIndex s + 1) mod length (getYouTubeApiKeys env))), s')
              \<and> currentKeyIndex s' = (currentKeyIndex s + 1) mod length (getYouTubeApiKeys env)"
    by blast
next
  assume h: "getYouTubeApiKeys env \<noteq> [] \<and> currentKeyIndex s < length (getYouTubeApiKeys env)
            \<and> length nows = length (getYouTubeApiKeys env)"
  then obtain s' where "rotate_seq env nows s = Some s'"
      "currentKeyIndex s' = (currentKeyIndex s + length nows) mod length (getYouTubeApiKeys env)"
    using rotate_seq_index [of env s nows] assms by blast
  then show "\<exists>s'. rotate_seq env nows s = Some s' \<and> currentKeyIndex s' = currentKeyIndex s"
    using h by simp
next
  assume "getYouTubeApiKeys env = []"
  then show "rotateYoutubeKey env now s = Some (Inl ''No YouTube API keys available'', s)"
    using assms by (simp add: rotateYoutubeKey_def rotate_body_empty)
qed

theorem rotate_advances_and_wraps_witness:
  "(\<exists>s'. rotateYoutubeKey env_three_keys 5 (initializeKeyTracking env_three_keys 0) = Some (Inr ''k2'', s')
          \<and> currentKeyIndex s' = 1)
   \<and> (\<exists>s'. rotate_seq env_three_keys [1, 2, 3] (initializeKeyTracking env_three_keys 0) = Some s'
          \<and> currentKeyIndex s' = 0)
   \<and> rotateYoutubeKey env_no_keys 5 (initializeKeyTracking env_no_keys 0)
        = Some (Inl ''No YouTube API keys available'', initializeKeyTracking env_no_keys 0)"
  using rotate_advances_and_wraps [where s = "initializeKeyTracking env_three_keys 0"
          and env = env_three_keys and now = 5 and nows = "[1, 2, 3]"]
      rotate_advances_and_wraps [where s = "initializeKeyTracking env_no_keys 0"
          and env = env_no_keys and now = 5 and nows = "[]"]
  by (simp add: keys_env_three_keys keys_env_no_keys init_lock_free init_index)

section \<open>Concurrent rotations\<close>

lemma returned_count_update:
  "i < length cs \<Longrightarrow> cs ! i = Pending \<Longrightarrow> returned_count (cs[i := Returned r]) = Suc (returned_count cs)"
proof (induction cs arbitrary: i)
  case Nil
  then show ?case by simp
next
  case (Cons c cs)
  then show ?case by (cases i) (simp_all add: returned_count_def)
qed

lemma run_events_invariant:
  assumes keys: "getYouTubeApiKeys env \<noteq> []"
  shows "\<not> keyRotationLock s \<Longrightarrow> currentKeyIndex s < length (getYouTubeApiKeys env) \<Longrightarrow>
         run_events env evs (cs, s) = (cs', s') \<Longrightarrow>
         \<not> keyRotationLock s' \<and> length cs' = length cs \<and> returned_count cs \<le> returned_count cs'
       \<and> currentKeyIndex s' = (currentKeyIndex s + (returned_count cs' - returned_count cs)) mod length (getYouTubeApiKeys env)"
proof (induction evs arbitrary: cs s)
  case Nil
  then show ?case by simp
next
  case (Cons ev evs)
  obtain i now where ev: "ev = (i, now)" by (cases ev)
  obtain cs1 s1 where st1: "run_event env (i, now) (cs, s) = (cs1, s1)"
    by (cases "run_event env (i, now) (cs, s)")
  show ?case
  proof (cases "i < length cs \<and> cs ! i = Pending")
    case True
    obtain t where t: "rotateYoutubeKey env now s =
        Some (Inr (getYouTubeApiKeys env ! ((currentKeyIndex s + 1) mod length (getYouTubeApiKeys env))), t)"
      "\<not> keyRotationLock t"
      "currentKeyIndex t = (currentKeyIndex s + 1) mod length (getYouTubeApiKeys env)"
      using rotateYoutubeKey_index [OF Cons.prems(1) keys] by blast
    with True st1 have eq: "s1 = t" "cs1 = cs[i := Returned (Inr (getYouTubeApiKeys env ! ((currentKeyIndex s + 1) mod length (getYouTubeApiKeys env))))]"
      by simp_all
    have rc: "returned_count cs1 = Suc (returned_count cs)"
      using True eq(2) by (simp add: returned_count_update)
    have lt: "currentKeyIndex s1 < length (getYouTubeApiKeys env)"
      using eq(1) t(3) keys by simp
    have run: "run_events env evs (cs1, s1) = (cs', s')"
      using Cons.prems(3) ev st1 by simp
    from Cons.IH [OF _ lt run] t(2) eq(1)
    have ih: "\<not> keyRotationLock s'" "length cs' = length cs1" "returned_count cs1 \<le> returned_count cs'"
      "currentKeyIndex s' = (currentKeyIndex s1 + (returned_count cs' - returned_count cs1)) mod length (getYouTubeApiKeys env)"
      by simp_all
    have "currentKeyIndex s' = (currentKeyIndex s + (returned_count cs' - returned_count cs)) mod length (getYouTubeApiKeys env)"
    proof -
      have "currentKeyIndex s' = ((currentKeyIndex s + 1) mod length (getYouTubeApiKeys env) + (returned_count cs' - returned_count cs1)) mod length (getYouTubeApiKeys env)"
        using ih(4) eq(1) t(3) by simp
      also have "\<dots> = (currentKeyIndex s + 1 + (returned_count cs' - returned_count cs1)) mod length (getYouTubeApiKeys env)"
        by (simp add: mod_simps)
      also have "currentKeyIndex s + 1 + (returned_count cs' - returned_count cs1) = currentKeyIndex s + (returned_count cs' - returned_count cs)"
        using rc ih(3) by simp
      finally show ?thesis .
    qed
    then show ?thesis using ih eq(2) rc by simp
  next
    case False
    with st1 have "cs1 = cs" "s1 = s" by auto
    with Cons.prems ev st1 Cons.IH [of s cs] show ?thesis by simp
  qed
qed

lemma run_event_keeps_returned:
  "fst (run_event env ev (cs, s)) ! j \<noteq> Pending" if "cs ! j \<noteq> Pending" "j < length cs"
proof -
  obtain i now where ev: "ev = (i, now)" by (cases ev)
  show ?thesis using that unfolding ev
    by (cases "i = j") (auto split: option.splits)
qed

lemma run_event_lock_free:
  assumes "\<not> keyRotationLock s"
  shows "\<not> keyRotationLock (snd (run_event env ev (cs, s)))"
proof -
  obtain i now where ev: "ev = (i, now)" by (cases ev)
  obtain r s' where "rotateYoutubeKey env now s = Some (r, s')" "\<not> keyRotationLock s'"
    using rotateYoutubeKey_free [OF assms] by blast
  then show ?thesis using assms unfolding ev by simp
qed

lemma run_event_length: "length (fst (run_event env ev (cs, s))) = length cs"
proof -
  obtain i now where ev: "ev = (i, now)" by (cases ev)
  show ?thesis unfolding ev by (simp split: option.splits)
qed

lemma run_event_runs_caller:
  assumes "\<not> keyRotationLock s" and "i < length cs"
  shows "fst (run_event env (i, now) (cs, s)) ! i \<noteq> Pending"
proof -
  obtain r s' where "rotateYoutubeKey env now s = Some (r, s')"
    using rotateYoutubeKey_free [OF assms(1)] by blast
  then show ?thesis using assms(2) by simp
qed

lemma run_events_keep_returned:
  "cs ! j \<noteq> Pending \<Longrightarrow> j < length cs \<Longrightarrow> fst (run_events env evs (cs, s)) ! j \<noteq> Pending"
proof (induction evs arbitrary: cs s)
  case Nil
  then show ?case by simp
next
  case (Cons ev evs)
  obtain cs1 s1 where st1: "run_event env ev (cs, s) = (cs1, s1)"
    by (cases "run_event env ev (cs, s)")
  have "cs1 ! j \<noteq> Pending"
    using run_event_keeps_returned [OF Cons.prems, of env ev s] st1 by simp
  moreover have "j < length cs1"
    using run_event_length [of env ev cs s] st1 Cons.prems(2) by simp
  ultimately show ?case using Cons.IH [of cs1 s1] st1 by simp
qed

lemma run_events_scheduled_returns:
  "\<not> keyRotationLock s \<Longrightarrow> i < length cs \<Longrightarrow> i \<in> fst ` set evs \<Longrightarrow>
   fst (run_events env evs (cs, s)) ! i \<noteq> Pending"
proof (induction evs arbitrary: cs s)
  case Nil
  then show ?case by simp
next
  case (Cons ev evs)
  obtain cs1 s1 where st1: "run_event env ev (cs, s) = (cs1, s1)"
    by (cases "run_event env ev (cs, s)")
  have free1: "\<not> keyRotationLock s1"
    using run_event_lock_free [OF Cons.prems(1), of env ev cs] st1 by simp
  have len1: "i < length cs1"
    using run_event_length [of env ev cs s] st1 Cons.prems(2) by simp
  show ?case
  proof (cases "fst ev = i")
    case True
    then obtain now where "ev = (i, now)" by (cases ev) simp
    then have "cs1 ! i \<noteq> Pending"
      using run_event_runs_caller [OF Cons.prems(1,2), of env now] st1 by simp
    then show ?thesis
      using run_events_keep_returned [OF _ len1, of env evs s1] st1 by simp
  next
    case False
    with Cons.prems(3) have "i \<in> fst ` set evs" by auto
    from Cons.IH [OF free1 len1 this] show ?thesis using st1 by simp
  qed
qed

lemma returned_count_all:
  "(\<forall>i<length cs. cs ! i \<noteq> Pending) \<Longrightarrow> returned_count cs = length cs"
proof -
  assume "\<forall>i<length cs. cs ! i \<noteq> Pending"
  then have "\<forall>c\<in>set cs. c \<noteq> Pending"
    by (simp add: all_set_conv_all_nth)
  then show ?thesis
    by (simp add: returned_count_def)
qed

lemma returned_count_replicate: "returned_count (replicate k Pending) = 0"
  by (simp add: returned_count_def)

lemma first_runs_set:
  "set (first_runs k seen js) = {j \<in> set js. j < k \<and> j \<notin> set seen}"
  by (induction js arbitrary: seen) auto

lemma first_runs_distinct:
  "distinct (first_runs k seen js)"
  by (induction js arbitrary: seen) (auto simp: first_runs_set)

lemma run_order_all:
  assumes "\<forall>i<k. i \<in> fst ` set evs"
  shows "set (run_order k evs) = {..<k}" and "distinct (run_order k evs)" and "length (run_order k evs) = k"
proof -
  show s: "set (run_order k evs) = {..<k}"
    using assms by (auto simp: run_order_def first_runs_set)
  show d: "distinct (run_order k evs)"
    by (simp add: run_order_def first_runs_distinct)
  show "length (run_order k evs) = k"
    using distinct_card [OF d] s by simp
qed

lemma run_events_order:
  assumes keys: "getYouTubeApiKeys env \<noteq> []"
  shows "\<not> keyRotationLock s \<Longrightarrow> length cs = k \<Longrightarrow> (\<forall>i<k. (cs ! i = Pending) = (i \<notin> set seen)) \<Longrightarrow>
         run_events env evs (cs, s) = (cs', s') \<Longrightarrow>
         (\<forall>j<length (first_runs k seen (map fst evs)).
             cs' ! (first_runs k seen (map fst evs) ! j) =
               Returned (Inr (getYouTubeApiKeys env ! ((currentKeyIndex s + Suc j) mod length (getYouTubeApiKeys env)))))
       \<and> (\<forall>i<k. i \<in> set seen \<longrightarrow> cs' ! i = cs ! i)"
proof (induction evs arbitrary: cs s seen)
  case Nil
  then show ?case by simp
next
  case (Cons ev evs)
  obtain i now where ev: "ev = (i, now)" by (cases ev)
  let ?n = "length (getYouTubeApiKeys env)"
  show ?case
  proof (cases "i < k \<and> i \<notin> set seen")
    case True
    then have pend: "i < length cs \<and> cs ! i = Pending"
      using Cons.prems(2,3) by simp
    obtain t where t: "rotateYoutubeKey env now s = Some (Inr (getYouTubeApiKeys env ! ((currentKeyIndex s + 1) mod ?n)), t)"
      "\<not> keyRotationLock t"
      "currentKeyIndex t = (currentKeyIndex s + 1) mod ?n"
      using rotateYoutubeKey_index [OF Cons.prems(1) keys] by blast
    let ?cs1 = "cs[i := Returned (Inr (getYouTubeApiKeys env ! ((currentKeyIndex s + 1) mod ?n)))]"
    have run: "run_events env evs (?cs1, t) = (cs', s')"
      using Cons.prems(4) ev pend t(1) by simp
    have len1: "length ?cs1 = k"
      using Cons.prems(2) by simp
    have seen1: "\<forall>a<k. (?cs1 ! a = Pending) = (a \<notin> set (i # seen))"
      using Cons.prems(2,3) True by (auto simp: nth_list_update)
    from Cons.IH [OF t(2) len1 seen1 run]
    have ih: "\<forall>j<length (first_runs k (i # seen) (map fst evs)).
             cs' ! (first_runs k (i # seen) (map fst evs) ! j) =
               Returned (Inr (getYouTubeApiKeys env ! ((currentKeyIndex t + Suc j) mod ?n)))"
      and keep: "\<forall>a<k. a \<in> set (i # seen) \<longrightarrow> cs' ! a = ?cs1 ! a"
      by simp_all
    have order: "first_runs k seen (map fst (ev # evs)) = i # first_runs k (i # seen) (map fst evs)"
      using True ev by simp
    have idx: "(currentKeyIndex t + Suc j) mod ?n = (currentKeyIndex s + Suc (Suc j)) mod ?n" for j
    proof -
      have "((currentKeyIndex s + 1) mod ?n + Suc j) mod ?n = (currentKeyIndex s + 1 + Suc j) mod ?n"
        by (rule mod_add_left_eq)
      then show ?thesis unfolding t(3) by simp
    qed
    have first: "cs' ! i = Returned (Inr (getYouTubeApiKeys env ! ((currentKeyIndex s + Suc 0) mod ?n)))"
    proof -
      from keep [rule_format, of i] True have "cs' ! i = ?cs1 ! i" by simp
      with pend show ?thesis by simp
    qed
    have "\<forall>j<length (first_runs k seen (map fst (ev # evs))).
             cs' ! (first_runs k seen (map fst (ev # evs)) ! j) =
               Returned (Inr (getYouTubeApiKeys env ! ((currentKeyIndex s + Suc j) mod ?n)))"
    proof (intro allI impI)
      fix j assume j: "j < length (first_runs k seen (map fst (ev # evs)))"
      show "cs' ! (first_runs k seen (map fst (ev # evs)) ! j) =
               Returned (Inr (getYouTubeApiKeys env ! ((currentKeyIndex s + Suc j) mod ?n)))"
      proof (cases j)
        case 0
        then show ?thesis unfolding order using first by simp
      next
        case (Suc j')
        with j have "j' < length (first_runs k (i # seen) (map fst evs))"
          unfolding order by simp
        with ih have "cs' ! (first_runs k (i # seen) (map fst evs) ! j') =
               Returned (Inr (getYouTubeApiKeys env ! ((currentKeyIndex t + Suc j') mod ?n)))"
          by simp
        then show ?thesis unfolding order Suc idx by simp
      qed
    qed
    moreover have "\<forall>a<k. a \<in> set seen \<longrightarrow> cs' ! a = cs ! a"
    proof (intro allI impI)
      fix a assume a: "a < k" "a \<in> set seen"
      with True have "a \<noteq> i" by auto
      with keep [rule_format, of a] a show "cs' ! a = cs ! a" by simp
    qed
    ultimately show ?thesis by simp
  next
    case False
    have nopend: "\<not> (i < length cs \<and> cs ! i = Pending)"
      using False Cons.prems(2,3) by auto
    then have "run_event env (i, now) (cs, s) = (cs, s)"
      by auto
    then have run: "run_events env evs (cs, s) = (cs', s')"
      using Cons.prems(4) ev by simp
    have order: "first_runs k seen (map fst (ev # evs)) = first_runs k seen (map fst evs)"
      using False ev by auto
    from Cons.IH [OF Cons.prems(1,2,3) run] show ?thesis
      unfolding order by simp
  qed
qed

text \<open>
  Claim C3, as the code has it. The lock only serialises: every caller that gets to run
  finds the lock free, performs its own advance and returns the key at the index it has
  just set. When each of \<open>k\<close> concurrent callers has run, all \<open>k\<close> have returned,
  \<open>currentKeyIndex\<close> has moved by \<open>k\<close> modulo the pool size, one advance per caller,
  and the caller that was the \<open>j\<close>-th to run holds the key \<open>j\<close> places after the
  starting index: successive callers are handed successive keys.
\<close>

theorem concurrent_rotations_accumulate:
  assumes keys: "getYouTubeApiKeys env \<noteq> []"
    and free: "\<not> keyRotationLock s"
    and inside: "currentKeyIndex s < length (getYouTubeApiKeys env)"
    and all_run: "\<forall>i<k. i \<in> fst ` set evs"
    and run: "run_events env evs (replicate k Pending, s) = (cs', s')"
  shows "length cs' = k \<and> (\<forall>i<k. cs' ! i \<noteq> Pending) \<and> \<not> keyRotationLock s'
       \<and> currentKeyIndex s' = (currentKeyIndex s + k) mod length (getYouTubeApiKeys env)
       \<and> distinct (run_order k evs) \<and> set (run_order k evs) = {..<k}
       \<and> (\<forall>j<k. cs' ! (run_order k evs ! j) =
             Returned (Inr (getYouTubeApiKeys env ! ((currentKeyIndex s + Suc j) mod length (getYouTubeApiKeys env)))))"
proof -
  from run_events_invariant [OF keys free inside run]
  have inv: "\<not> keyRotationLock s'" "length cs' = k"
    "currentKeyIndex s' = (currentKeyIndex s + returned_count cs') mod length (getYouTubeApiKeys env)"
    by (simp_all add: returned_count_replicate)
  have fin: "\<forall>i<k. cs' ! i \<noteq> Pending"
  proof (intro allI impI)
    fix i assume "i < k"
    then have "fst (run_events env evs (replicate k Pending, s)) ! i \<noteq> Pending"
      using run_events_scheduled_returns [OF free, of i "replicate k Pending" evs env] all_run by simp
    then show "cs' ! i \<noteq> Pending" using run by simp
  qed
  then have count: "returned_count cs' = k"
    using returned_count_all [of cs'] inv(2) by simp
  have start: "\<forall>i<k. (replicate k Pending ! i = Pending) = (i \<notin> set [])"
    by simp
  have handed: "\<forall>j<k. cs' ! (run_order k evs ! j) =
             Returned (Inr (getYouTubeApiKeys env ! ((currentKeyIndex s + Suc j) mod length (getYouTubeApiKeys env))))"
    using run_events_order [OF keys free _ start run] run_order_all(3) [OF all_run]
    by (simp add: run_order_def)
  show ?thesis
    using inv fin count handed run_order_all(1,2) [OF all_run] by simp
qed

theorem concurrent_rotations_accumulate_witness:
  "length (fst (run_events env_three_keys [(1, 1), (0, 2)] (replicate 2 Pending, initializeKeyTracking env_three_keys 0))) = 2
   \<and> currentKeyIndex (snd (run_events env_three_keys [(1, 1), (0, 2)] (replicate 2 Pending, initializeKeyTracking env_three_keys 0))) = 2
   \<and> run_order 2 [(1, 1), (0, 2)] = [1, 0]
   \<and> fst (run_events env_three_keys [(1, 1), (0, 2)] (replicate 2 Pending, initializeKeyTracking env_three_keys 0)) ! 1
       = Returned (Inr ''k2'')
   \<and> fst (run_events env_three_keys [(1, 1), (0, 2)] (replicate 2 Pending, initializeKeyTracking env_three_keys 0)) ! 0
       = Returned (Inr ''k3'')"
proof -
  have a: "\<forall>i<2. i \<in> fst ` set [(1::nat, 1::int), (0, 2)]"
    by (simp add: less_Suc_eq numeral_2_eq_2)
  have k: "getYouTubeApiKeys env_three_keys \<noteq> []"
    by (simp add: keys_env_three_keys)
  have i: "currentKeyIndex (initializeKeyTracking env_three_keys 0) < length (getYouTubeApiKeys env_three_keys)"
    by (simp add: keys_env_three_keys init_index)
  have o: "run_order 2 [(1, 1), (0, 2)] = [1, 0]"
    by (simp add: run_order_def)
  note w = concurrent_rotations_accumulate [OF k init_lock_free i a surjective_pairing]
  have j0: "(0::nat) < 2" and j1: "(1::nat) < 2" by simp_all
  from w have h: "\<forall>j<2. fst (run_events env_three_keys [(1, 1), (0, 2)] (replicate 2 Pending, initializeKeyTracking env_three_keys 0))
        ! (run_order 2 [(1, 1), (0, 2)] ! j)
      = Returned (Inr (getYouTubeApiKeys env_three_keys ! ((currentKeyIndex (initializeKeyTracking env_three_keys 0) + Suc j)
            mod length (getYouTubeApiKeys env_three_keys))))"
    by blast
  from h [rule_format, OF j0] h [rule_format, OF j1] w o
  show ?thesis
    by (simp add: keys_env_three_keys init_index)
qed

text \<open>
  Claim C3 as stated fails: two callers on a pool of three keys, both pending before
  either runs, leave the index at 2 (two advances from 0), and they are handed different
  keys, the second and the third.
\<close>

theorem concurrent_rotations_do_not_collapse:
  "fst (run_events env_three_keys [(0, 1), (1, 1)] ([Pending, Pending], initializeKeyTracking env_three_keys 0))
     = [Returned (Inr ''k2''), Returned (Inr ''k3'')]
   \<and> currentKeyIndex (snd (run_events env_three_keys [(0, 1), (1, 1)] ([Pending, Pending], initializeKeyTracking env_three_keys 0))) = 2
   \<and> currentKeyIndex (initializeKeyTracking env_three_keys 0) = 0"
  by (simp add: rotateYoutubeKey_def rotate_body_def keys_env_three_keys initializeKeyTracking_def DAY_MS_def)

section \<open>Expiry of cache entries\<close>

lemma find_live_after_sweep:
  "t \<le> now \<Longrightarrow> find (live_match k now) (deleteMany_expired t ds) = find (live_match k now) ds"
  by (induction ds) (auto simp: deleteMany_expired_def live_match_def split: option.splits)

lemma find_live_after_deleteOne:
  "t \<le> now \<Longrightarrow> find (live_match k now) (deleteOne (expired_match k' t) ds) = find (live_match k now) ds"
  by (induction ds) (auto simp: expired_match_def live_match_def split: option.splits)

lemma find_live_all_expired:
  "all_expired k now ds \<Longrightarrow> find (live_match k now) ds = None"
  by (induction ds) (auto simp: all_expired_def live_match_def split: option.splits)

lemma find_live_without_key:
  "find (live_match k now) (filter (\<lambda>d. doc_key d \<noteq> k) ds) = None"
  by (induction ds) (auto simp: live_match_def)

lemma get_cache_on_snd_cases:
  "snd (get_cache_on t key ds) = ds \<or> (\<exists>k. snd (get_cache_on t key ds) = deleteOne (expired_match k t) ds)"
  by (auto simp: get_cache_on_def split: option.splits)

lemma post_cache_get_on_snd_cases:
  "snd (post_cache_get_on t key ds) = ds \<or> (\<exists>k. snd (post_cache_get_on t key ds) = deleteOne (expired_match k t) ds)"
  by (auto simp: post_cache_get_on_def split: option.splits)

lemma get_cache_on_fst_find:
  "find (live_match k now) ds' = find (live_match k now) ds \<Longrightarrow>
   fst (get_cache_on now (Some k) ds') = fst (get_cache_on now (Some k) ds)"
  by (simp add: get_cache_on_def split: option.splits)

lemma post_cache_get_on_fst_find:
  "find (live_match k now) ds' = find (live_match k now) ds \<Longrightarrow>
   fst (post_cache_get_on now (Some k) ds') = fst (post_cache_get_on now (Some k) ds)"
  by (simp add: post_cache_get_on_def split: option.splits)

lemma on_collection_fst:
  assumes "\<And>c. fst (h (db' c)) = fst (h (db c))"
  shows "fst (on_collection h cn db') = fst (on_collection h cn db)"
  using assms by (auto simp: on_collection_def split: sum.splits prod.splits) (metis fst_conv)+

lemma on_collection_snd:
  "snd (on_collection h cn db) c = db c \<or> snd (on_collection h cn db) c = snd (h (db c))"
  by (auto simp: on_collection_def split: sum.splits prod.splits)

lemma find_live_after_read:
  assumes "t \<le> now"
  shows "find (live_match k now) (snd (on_collection (get_cache_on t key') cn' db) c) = find (live_match k now) (db c)"
    and "find (live_match k now) (snd (on_collection (post_cache_get_on t key') cn' db) c) = find (live_match k now) (db c)"
proof -
  show "find (live_match k now) (snd (on_collection (get_cache_on t key') cn' db) c) = find (live_match k now) (db c)"
    using on_collection_snd [of "get_cache_on t key'" cn' db c] get_cache_on_snd_cases [of t key' "db c"]
      find_live_after_deleteOne [OF assms]
    by auto
  show "find (live_match k now) (snd (on_collection (post_cache_get_on t key') cn' db) c) = find (live_match k now) (db c)"
    using on_collection_snd [of "post_cache_get_on t key'" cn' db c] post_cache_get_on_snd_cases [of t key' "db c"]
      find_live_after_deleteOne [OF assms]
    by auto
qed

lemma read_routes_miss:
  assumes "collection_of name = Some c" and "k \<noteq> []" and "find (live_match k now) (db c) = None"
  shows "fst (get_cache now (Some name) (Some k) db) = Error_response 404 ''Cache not found''"
    and "fst (post_cache_get now (Some name) (Some k) db) = Error_response 404 ''Cache not found''"
  using assms
  by (simp_all add: get_cache_def post_cache_get_def on_collection_def select_collection_def invalid_collection_def
      get_cache_on_def post_cache_get_on_def)

lemma live_match_spelled:
  "live_match k now = (\<lambda>d. doc_key d = k \<and> (expiresAt d = None \<or> (\<exists>e. expiresAt d = Some e \<and> now < e)))"
  by (auto simp: live_match_def fun_eq_iff split: option.splits)

lemma find_only_candidate:
  "(\<forall>x\<in>set ds. P x \<longrightarrow> x = d) \<Longrightarrow> d \<in> set ds \<Longrightarrow> find P ds = (if P d then Some d else None)"
  by (induction ds) (auto simp: find_None_iff)

lemma read_routes_find:
  assumes "collection_of name = Some c" and "k \<noteq> []"
  shows "fst (get_cache now (Some name) (Some k) db) =
           (case find (live_match k now) (db c) of
              None \<Rightarrow> Error_response 404 ''Cache not found'' | Some d \<Rightarrow> Data_doc d)"
    and "fst (post_cache_get now (Some name) (Some k) db) =
           (case find (live_match k now) (db c) of
              None \<Rightarrow> Error_response 404 ''Cache not found'' | Some d \<Rightarrow> Data_fields (dataToReturn d))"
  using assms
  by (simp_all add: get_cache_def post_cache_get_def on_collection_def select_collection_def
      get_cache_on_def post_cache_get_on_def split: option.splits)

lemma find_live_single:
  assumes "d \<in> set ds" and "doc_key d = k" and "\<forall>d'\<in>set ds. doc_key d' = k \<longrightarrow> d' = d"
  shows "find (live_match k now) ds = (if live_match k now d then Some d else None)"
proof (rule find_only_candidate)
  show "\<forall>x\<in>set ds. live_match k now x \<longrightarrow> x = d"
    using assms(3) by (auto simp: live_match_def)
  show "d \<in> set ds" by (rule assms(1))
qed

text \<open>
  Claim C6. Both read routes decide liveness by one query: a document is live when it is
  stored under the key and its \<open>expiresAt\<close> is absent or after \<open>now\<close>. The first live
  document is what the routes answer with, and without one they answer 404
  \<open>Cache not found\<close>. So an entry without \<open>expiresAt\<close> and an entry whose \<open>expiresAt\<close> is
  still to come are returned, and an entry whose \<open>expiresAt\<close> is \<open>now\<close> or earlier is not.
  What the routes answer at time \<open>now\<close> does not depend on whether an earlier sweep of
  \<open>DELETE /cache/expired\<close> or the clean-up of an earlier miss has removed expired
  documents; and when every document stored under the key has its \<open>expiresAt\<close> before
  \<open>now\<close>, the answer is the 404 that a database gives that never held the key.
\<close>

theorem expired_entry_reads_as_absent:
  assumes "\<forall>c. sweep_at c \<le> now" and "t \<le> now"
  shows "fst (get_cache now cn (Some k) (delete_cache_expired sweep_at db)) = fst (get_cache now cn (Some k) db)
       \<and> fst (post_cache_get now cn (Some k) (delete_cache_expired sweep_at db)) = fst (post_cache_get now cn (Some k) db)
       \<and> fst (get_cache now cn (Some k) (snd (get_cache t cn' key' db))) = fst (get_cache now cn (Some k) db)
       \<and> fst (post_cache_get now cn (Some k) (snd (post_cache_get t cn' key' db))) = fst (post_cache_get now cn (Some k) db)
       \<and> (collection_of name = Some c \<and> k \<noteq> [] \<and> all_expired k now (db c) \<longrightarrow>
             fst (get_cache now (Some name) (Some k) db) = Error_response 404 ''Cache not found''
           \<and> fst (post_cache_get now (Some name) (Some k) db) = Error_response 404 ''Cache not found''
           \<and> fst (get_cache now (Some name) (Some k) (without_key k db)) = fst (get_cache now (Some name) (Some k) db)
           \<and> fst (post_cache_get now (Some name) (Some k) (without_key k db)) = fst (post_cache_get now (Some name) (Some k) db))
       \<and> (collection_of name = Some c \<and> k \<noteq> [] \<longrightarrow>
             fst (get_cache now (Some name) (Some k) db) =
               (case find (\<lambda>d. doc_key d = k \<and> (expiresAt d = None \<or> (\<exists>e. expiresAt d = Some e \<and> now < e))) (db c) of
                  None \<Rightarrow> Error_response 404 ''Cache not found''
                | Some d \<Rightarrow> Data_doc d)
           \<and> fst (post_cache_get now (Some name) (Some k) db) =
               (case find (\<lambda>d. doc_key d = k \<and> (expiresAt d = None \<or> (\<exists>e. expiresAt d = Some e \<and> now < e))) (db c) of
                  None \<Rightarrow> Error_response 404 ''Cache not found''
                | Some d \<Rightarrow> Data_fields (dataToReturn d)))
       \<and> (collection_of name = Some c \<and> k \<noteq> [] \<and> d \<in> set (db c) \<and> doc_key d = k
            \<and> (\<forall>d'\<in>set (db c). doc_key d' = k \<longrightarrow> d' = d) \<longrightarrow>
             (expiresAt d = None \<or> (\<exists>e. expiresAt d = Some e \<and> now < e) \<longrightarrow>
                fst (get_cache now (Some name) (Some k) db) = Data_doc d
              \<and> fst (post_cache_get now (Some name) (Some k) db) = Data_fields (dataToReturn d))
           \<and> ((\<exists>e. expiresAt d = Some e \<and> e \<le> now) \<longrightarrow>
                fst (get_cache now (Some name) (Some k) db) = Error_response 404 ''Cache not found''
              \<and> fst (post_cache_get now (Some name) (Some k) db) = Error_response 404 ''Cache not found''))"
proof -
  have sweep_get: "fst (get_cache now cn (Some k) (delete_cache_expired sweep_at db)) = fst (get_cache now cn (Some k) db)"
    unfolding get_cache_def
    by (rule on_collection_fst, rule get_cache_on_fst_find)
       (simp add: delete_cache_expired_def find_live_after_sweep assms(1))
  have sweep_post: "fst (post_cache_get now cn (Some k) (delete_cache_expired sweep_at db)) = fst (post_cache_get now cn (Some k) db)"
    unfolding post_cache_get_def
    by (rule on_collection_fst, rule post_cache_get_on_fst_find)
       (simp add: delete_cache_expired_def find_live_after_sweep assms(1))
  have read_get: "fst (get_cache now cn (Some k) (snd (get_cache t cn' key' db))) = fst (get_cache now cn (Some k) db)"
    unfolding get_cache_def
    by (rule on_collection_fst, rule get_cache_on_fst_find) (rule find_live_after_read(1) [OF assms(2)])
  have read_post: "fst (post_cache_get now cn (Some k) (snd (post_cache_get t cn' key' db))) = fst (post_cache_get now cn (Some k) db)"
    unfolding post_cache_get_def
    by (rule on_collection_fst, rule post_cache_get_on_fst_find) (rule find_live_after_read(2) [OF assms(2)])
  have expired: "fst (get_cache now (Some name) (Some k) db) = Error_response 404 ''Cache not found''
           \<and> fst (post_cache_get now (Some name) (Some k) db) = Error_response 404 ''Cache not found''
           \<and> fst (get_cache now (Some name) (Some k) (without_key k db)) = fst (get_cache now (Some name) (Some k) db)
           \<and> fst (post_cache_get now (Some name) (Some k) (without_key k db)) = fst (post_cache_get now (Some name) (Some k) db)"
    if h: "collection_of name = Some c \<and> k \<noteq> [] \<and> all_expired k now (db c)"
  proof -
    from h have miss: "find (live_match k now) (db c) = None"
      by (simp add: find_live_all_expired)
    have miss': "find (live_match k now) (without_key k db c) = None"
      by (simp add: without_key_def find_live_without_key)
    have g: "fst (get_cache now (Some name) (Some k) db) = Error_response 404 ''Cache not found''"
      using read_routes_miss(1) [of name c k now db] h miss by simp
    have p: "fst (post_cache_get now (Some name) (Some k) db) = Error_response 404 ''Cache not found''"
      using read_routes_miss(2) [of name c k now db] h miss by simp
    have g': "fst (get_cache now (Some name) (Some k) (without_key k db)) = fst (get_cache now (Some name) (Some k) db)"
      using read_routes_miss(1) [of name c k now "without_key k db"] h miss' g by simp
    have p': "fst (post_cache_get now (Some name) (Some k) (without_key k db)) = fst (post_cache_get now (Some name) (Some k) db)"
      using read_routes_miss(2) [of name c k now "without_key k db"] h miss' p by simp
    from g p g' p' show ?thesis by simp
  qed
  have query: "fst (get_cache now (Some name) (Some k) db) =
               (case find (\<lambda>d. doc_key d = k \<and> (expiresAt d = None \<or> (\<exists>e. expiresAt d = Some e \<and> now < e))) (db c) of
                  None \<Rightarrow> Error_response 404 ''Cache not found''
                | Some d \<Rightarrow> Data_doc d)
           \<and> fst (post_cache_get now (Some name) (Some k) db) =
               (case find (\<lambda>d. doc_key d = k \<and> (expiresAt d = None \<or> (\<exists>e. expiresAt d = Some e \<and> now < e))) (db c) of
                  None \<Rightarrow> Error_response 404 ''Cache not found''
                | Some d \<Rightarrow> Data_fields (dataToReturn d))"
    if h: "collection_of name = Some c \<and> k \<noteq> []"
    using read_routes_find [of name c k now db] h
    by (simp only: live_match_spelled simp_thms)
  have single: "(expiresAt d = None \<or> (\<exists>e. expiresAt d = Some e \<and> now < e) \<longrightarrow>
                fst (get_cache now (Some name) (Some k) db) = Data_doc d
              \<and> fst (post_cache_get now (Some name) (Some k) db) = Data_fields (dataToReturn d))
           \<and> ((\<exists>e. expiresAt d = Some e \<and> e \<le> now) \<longrightarrow>
                fst (get_cache now (Some name) (Some k) db) = Error_response 404 ''Cache not found''
              \<and> fst (post_cache_get now (Some name) (Some k) db) = Error_response 404 ''Cache not found'')"
    if h: "collection_of name = Some c \<and> k \<noteq> [] \<and> d \<in> set (db c) \<and> doc_key d = k
            \<and> (\<forall>d'\<in>set (db c). doc_key d' = k \<longrightarrow> d' = d)"
  proof -
    from h have f: "find (live_match k now) (db c) = (if live_match k now d then Some d else None)"
      using find_live_single [of d "db c" k now] by simp
    have l: "live_match k now d = (expiresAt d = None \<or> (\<exists>e. expiresAt d = Some e \<and> now < e))"
      using h by (simp add: live_match_spelled)
    have n: "(\<exists>e. expiresAt d = Some e \<and> e \<le> now) \<Longrightarrow> \<not> live_match k now d"
      unfolding l by auto
    show ?thesis
      using read_routes_find [of name c k now db] h f l n by auto
  qed
  from sweep_get sweep_post read_get read_post expired query single show ?thesis
    by blast
qed

lemma collection_of_playlists: "collection_of ''playlists'' = Some Playlists"
  by (simp add: collection_of_def)

lemma collection_of_channels: "collection_of ''channels'' = Some Channels"
  by (simp add: collection_of_def)

theorem expired_entry_reads_as_absent_witness:
  "fst (get_cache 200 (Some ''playlists'') (Some ''playlist_ABC'') (delete_cache_expired (\<lambda>c. 150) expired_db))
     = fst (get_cache 200 (Some ''playlists'') (Some ''playlist_ABC'') expired_db)
   \<and> fst (post_cache_get 200 (Some ''playlists'') (Some ''playlist_ABC'') (snd (post_cache_get 120 (Some ''playlists'') (Some ''playlist_ABC'') expired_db)))
     = fst (post_cache_get 200 (Some ''playlists'') (Some ''playlist_ABC'') expired_db)
   \<and> fst (get_cache 200 (Some ''playlists'') (Some ''playlist_ABC'') expired_db) = Error_response 404 ''Cache not found''
   \<and> fst (post_cache_get 200 (Some ''playlists'') (Some ''playlist_ABC'') expired_db) = Error_response 404 ''Cache not found''
   \<and> fst (get_cache 200 (Some ''playlists'') (Some ''playlist_ABC'') (without_key ''playlist_ABC'' expired_db)) = Error_response 404 ''Cache not found''
   \<and> fst (get_cache 200 (Some ''playlists'') (Some ''playlist_NEW'') mixed_db) = Data_doc fresh_playlist_doc
   \<and> fst (post_cache_get 200 (Some ''playlists'') (Some ''playlist_NEW'') mixed_db) = Data_fields (JObj [(''videos'', JArr [JStr ''v2''])])
   \<and> fst (get_cache 200 (Some ''playlists'') (Some ''playlist_OLD'') mixed_db) = Data_doc undated_playlist_doc
   \<and> fst (post_cache_get 200 (Some ''playlists'') (Some ''playlist_OLD'') mixed_db) = Data_fields (JObj [(''videos'', JArr [JStr ''v3''])])
   \<and> fst (get_cache 300 (Some ''playlists'') (Some ''playlist_NEW'') mixed_db) = Error_response 404 ''Cache not found''
   \<and> fst (get_cache 200 (Some ''playlists'') (Some ''playlist_ABC'') mixed_db) = Error_response 404 ''Cache not found''"
proof -
  have e: "all_expired ''playlist_ABC'' 200 (expired_db Playlists)"
    by (simp add: all_expired_def expired_db_def expired_playlist_doc_def)
  have s: "\<forall>c::collection. (150::int) \<le> 200" and t: "(120::int) \<le> 200"
    by simp_all
  have s3: "\<forall>c::collection. (150::int) \<le> 300" and t3: "(120::int) \<le> 300"
    by simp_all
  have m: "mixed_db Playlists = [expired_playlist_doc, fresh_playlist_doc, undated_playlist_doc]"
    by (simp add: mixed_db_def)
  have keys: "doc_key expired_playlist_doc = ''playlist_ABC''" "doc_key fresh_playlist_doc = ''playlist_NEW''"
    "doc_key undated_playlist_doc = ''playlist_OLD''"
    by (simp_all add: expired_playlist_doc_def fresh_playlist_doc_def undated_playlist_doc_def empty_doc_def)
  have exp: "expiresAt expired_playlist_doc = Some 100" "expiresAt fresh_playlist_doc = Some 300"
    "expiresAt undated_playlist_doc = None"
    by (simp_all add: expired_playlist_doc_def fresh_playlist_doc_def undated_playlist_doc_def empty_doc_def)
  have ret: "dataToReturn fresh_playlist_doc = JObj [(''videos'', JArr [JStr ''v2''])]"
    "dataToReturn undated_playlist_doc = JObj [(''videos'', JArr [JStr ''v3''])]"
    by (simp_all add: dataToReturn_def field_if_truthy_def fresh_playlist_doc_def undated_playlist_doc_def empty_doc_def)
  note old = expired_entry_reads_as_absent [OF s t, where cn = "Some ''playlists''" and k = "''playlist_ABC''"
        and db = expired_db and name = "''playlists''" and c = Playlists and d = expired_playlist_doc
        and cn' = "Some ''playlists''" and key' = "Some ''playlist_ABC''"]
  note new = expired_entry_reads_as_absent [OF s t, where cn = "Some ''playlists''" and k = "''playlist_NEW''"
        and db = mixed_db and name = "''playlists''" and c = Playlists and d = fresh_playlist_doc
        and cn' = "Some ''playlists''" and key' = "Some ''playlist_NEW''"]
  note undated = expired_entry_reads_as_absent [OF s t, where cn = "Some ''playlists''" and k = "''playlist_OLD''"
        and db = mixed_db and name = "''playlists''" and c = Playlists and d = undated_playlist_doc
        and cn' = "Some ''playlists''" and key' = "Some ''playlist_OLD''"]
  note late = expired_entry_reads_as_absent [OF s3 t3, where cn = "Some ''playlists''" and k = "''playlist_NEW''"
        and db = mixed_db and name = "''playlists''" and c = Playlists and d = fresh_playlist_doc
        and cn' = "Some ''playlists''" and key' = "Some ''playlist_NEW''"]
  note gone = expired_entry_reads_as_absent [OF s t, where cn = "Some ''playlists''" and k = "''playlist_ABC''"
        and db = mixed_db and name = "''playlists''" and c = Playlists and d = expired_playlist_doc
        and cn' = "Some ''playlists''" and key' = "Some ''playlist_ABC''"]
  have a: "fst (get_cache 200 (Some ''playlists'') (Some ''playlist_ABC'') (delete_cache_expired (\<lambda>c. 150) expired_db))
     = fst (get_cache 200 (Some ''playlists'') (Some ''playlist_ABC'') expired_db)
   \<and> fst (post_cache_get 200 (Some ''playlists'') (Some ''playlist_ABC'') (snd (post_cache_get 120 (Some ''playlists'') (Some ''playlist_ABC'') expired_db)))
     = fst (post_cache_get 200 (Some ''playlists'') (Some ''playlist_ABC'') expired_db)
   \<and> fst (get_cache 200 (Some ''playlists'') (Some ''playlist_ABC'') expired_db) = Error_response 404 ''Cache not found''
   \<and> fst (post_cache_get 200 (Some ''playlists'') (Some ''playlist_ABC'') expired_db) = Error_response 404 ''Cache not found''
   \<and> fst (get_cache 200 (Some ''playlists'') (Some ''playlist_ABC'') (without_key ''playlist_ABC'' expired_db)) = Error_response 404 ''Cache not found''"
    using old e collection_of_playlists by simp
  have b: "fst (get_cache 200 (Some ''playlists'') (Some ''playlist_NEW'') mixed_db) = Data_doc fresh_playlist_doc
   \<and> fst (post_cache_get 200 (Some ''playlists'') (Some ''playlist_NEW'') mixed_db) = Data_fields (JObj [(''videos'', JArr [JStr ''v2''])])"
    using new collection_of_playlists m keys exp ret by simp
  have c: "fst (get_cache 200 (Some ''playlists'') (Some ''playlist_OLD'') mixed_db) = Data_doc undated_playlist_doc
   \<and> fst (post_cache_get 200 (Some ''playlists'') (Some ''playlist_OLD'') mixed_db) = Data_fields (JObj [(''videos'', JArr [JStr ''v3''])])"
    using undated collection_of_playlists m keys exp ret by simp
  have d: "fst (get_cache 300 (Some ''playlists'') (Some ''playlist_NEW'') mixed_db) = Error_response 404 ''Cache not found''"
    using late collection_of_playlists m keys exp by simp
  have g: "fst (get_cache 200 (Some ''playlists'') (Some ''playlist_ABC'') mixed_db) = Error_response 404 ''Cache not found''"
    using gone collection_of_playlists m keys exp by simp
  from a b c d g show ?thesis by simp
qed

section \<open>Writing and reading back a cache entry\<close>

lemma apply_set_key: "doc_key (apply_set k cname e now data d) = k"
  by (simp add: apply_set_def)

lemma apply_set_expires: "expiresAt (apply_set k cname e now data d) = Some e"
  by (simp add: apply_set_def)

lemma find_live_after_upsert:
  assumes "\<And>d. doc_key (upd d) = k" and "\<And>d. expiresAt (upd d) = Some e" and "now' < e"
  shows "find (live_match k now') (snd (updateOne_upsert k upd ds)) = Some (upd (previous_doc k ds))"
proof (induction ds)
  case Nil
  show ?case using assms by (simp add: previous_doc_def live_match_def)
next
  case (Cons d ds)
  show ?case
  proof (cases "doc_key d = k")
    case True
    then show ?thesis using assms by (simp add: previous_doc_def live_match_def)
  next
    case False
    then have "previous_doc k (d # ds) = previous_doc k ds"
      by (simp add: previous_doc_def)
    with False Cons.IH show ?thesis
      by (cases "updateOne_upsert k upd ds") (simp add: live_match_def)
  qed
qed

lemma post_cache_stored:
  assumes "post_cache stringify now failures (Some k) (Some data) (Some name) db = (Stored e op, db')"
  shows "\<exists>c. collection_of name = Some c \<and> k \<noteq> [] \<and> e = now + cacheExpiry c * HOUR_MS
           \<and> db' = db(c := snd (updateOne_upsert k (apply_set k name e now data) (db c)))"
proof -
  from assms obtain c where c: "collection_of name = Some c"
    by (auto simp: post_cache_def select_collection_def invalid_collection_def split: option.splits if_splits)
  with assms show ?thesis
    by (auto simp: post_cache_def select_collection_def invalid_collection_def Let_def split: if_splits prod.splits)
qed

lemma field_if_truthy_set_field_blank:
  "field_if_truthy name (set_field data name None) = field_if_truthy name (get_prop data name)"
  by (simp add: field_if_truthy_def set_field_def truthy_prop_def split: option.splits)

lemma dataToReturn_apply_set:
  "dataToReturn (apply_set k cname e now data d) =
     JObj (field_if_truthy ''videos'' (set_field data ''videos'' (doc_videos d))
         @ field_if_truthy ''channelId'' (set_field data ''channelId'' (doc_channelId d))
         @ field_if_truthy ''uploadsPlaylistId'' (set_field data ''uploadsPlaylistId'' (doc_uploadsPlaylistId d))
         @ field_if_truthy ''categories'' (set_field data ''categories'' (doc_categories d)))"
  by (simp add: dataToReturn_def apply_set_def)

lemma dataToReturn_apply_set_blank:
  "dataToReturn (apply_set k cname e now data (empty_doc k)) = recognised data"
  by (simp add: dataToReturn_apply_set recognised_def field_if_truthy_set_field_blank empty_doc_def)

text \<open>
  Claim C7, as the code has it. After a successful \<open>POST /cache\<close>, a \<open>POST /cache/get\<close> of
  the same collection and key before \<open>expiresAt\<close> answers with the stored document's
  recognised fields. The write is a \<open>$set\<close> on the document already stored under the key:
  a recognised field is taken from the payload where the payload has it truthy and is
  otherwise kept from the earlier document. When nothing was stored under the key
  before, the answer is exactly the payload's truthy recognised fields, so a payload
  made of those alone comes back as written.
\<close>

theorem put_then_get_merges:
  assumes put: "post_cache stringify now failures (Some k) (Some data) (Some name) db = (Stored e op, db')"
    and before: "now' < e"
    and sel: "collection_of name = Some c"
  shows "fst (post_cache_get now' (Some name) (Some k) db') =
           Data_fields (JObj
             (field_if_truthy ''videos'' (set_field data ''videos'' (doc_videos (previous_doc k (db c))))
            @ field_if_truthy ''channelId'' (set_field data ''channelId'' (doc_channelId (previous_doc k (db c))))
            @ field_if_truthy ''uploadsPlaylistId'' (set_field data ''uploadsPlaylistId'' (doc_uploadsPlaylistId (previous_doc k (db c))))
            @ field_if_truthy ''categories'' (set_field data ''categories'' (doc_categories (previous_doc k (db c))))))
       \<and> (find (\<lambda>d. doc_key d = k) (db c) = None \<longrightarrow>
             fst (post_cache_get now' (Some name) (Some k) db') = Data_fields (recognised data))
       \<and> (find (\<lambda>d. doc_key d = k) (db c) = None \<and> recognised data = data \<longrightarrow>
             fst (post_cache_get now' (Some name) (Some k) db') = Data_fields data)"
proof -
  from post_cache_stored [OF put] sel
  have k: "k \<noteq> []" and db': "db' = db(c := snd (updateOne_upsert k (apply_set k name e now data) (db c)))"
    by auto
  have live: "find (live_match k now') (db' c) = Some (apply_set k name e now data (previous_doc k (db c)))"
    unfolding db' using find_live_after_upsert [of "apply_set k name e now data" k e now' "db c"] before
    by (simp add: apply_set_key apply_set_expires)
  have got: "fst (post_cache_get now' (Some name) (Some k) db') =
      Data_fields (dataToReturn (apply_set k name e now data (previous_doc k (db c))))"
    using live k sel
    by (simp add: post_cache_get_def on_collection_def select_collection_def invalid_collection_def post_cache_get_on_def)
  have blank: "find (\<lambda>d. doc_key d = k) (db c) = None \<Longrightarrow> previous_doc k (db c) = empty_doc k"
    by (simp add: previous_doc_def)
  show ?thesis
  proof (intro conjI impI)
    show "fst (post_cache_get now' (Some name) (Some k) db') =
           Data_fields (JObj
             (field_if_truthy ''videos'' (set_field data ''videos'' (doc_videos (previous_doc k (db c))))
            @ field_if_truthy ''channelId'' (set_field data ''channelId'' (doc_channelId (previous_doc k (db c))))
            @ field_if_truthy ''uploadsPlaylistId'' (set_field data ''uploadsPlaylistId'' (doc_uploadsPlaylistId (previous_doc k (db c))))
            @ field_if_truthy ''categories'' (set_field data ''categories'' (doc_categories (previous_doc k (db c))))))"
      using got by (simp only: dataToReturn_apply_set)
  next
    assume "find (\<lambda>d. doc_key d = k) (db c) = None"
    then show "fst (post_cache_get now' (Some name) (Some k) db') = Data_fields (recognised data)"
      using got blank by (simp only: dataToReturn_apply_set_blank)
  next
    assume h: "find (\<lambda>d. doc_key d = k) (db c) = None \<and> recognised data = data"
    then have "fst (post_cache_get now' (Some name) (Some k) db') = Data_fields (recognised data)"
      using got blank by (simp only: dataToReturn_apply_set_blank)
    with h show "fst (post_cache_get now' (Some name) (Some k) db') = Data_fields data"
      by simp
  qed
qed

theorem put_then_get_merges_witness:
  "fst (post_cache_get 2000 (Some ''channels'') (Some ''k'')
         (snd (post_cache short_stringify 1000 0 (Some ''k'') (Some channel_payload) (Some ''channels'') empty_db)))
     = Data_fields channel_payload"
proof -
  have put: "post_cache short_stringify 1000 0 (Some ''k'') (Some channel_payload) (Some ''channels'') empty_db
      = (Stored (1000 + 24 * HOUR_MS) ''inserted'',
         snd (post_cache short_stringify 1000 0 (Some ''k'') (Some channel_payload) (Some ''channels'') empty_db))"
    by (simp add: post_cache_def select_collection_def invalid_collection_def collection_of_channels channel_payload_def
        short_stringify_def MAX_DATA_SIZE_def empty_db_def Let_def)
  have before: "(2000::int) < 1000 + 24 * HOUR_MS"
    by (simp add: HOUR_MS_def)
  have r: "recognised channel_payload = channel_payload"
    by (simp add: recognised_def channel_payload_def field_if_truthy_def)
  have n: "find (\<lambda>d. doc_key d = ''k'') (empty_db Channels) = None"
    by (simp add: empty_db_def)
  show ?thesis
    using put_then_get_merges [OF put before collection_of_channels, THEN conjunct2, THEN conjunct2] r n
    by simp
qed

text \<open>
  Claim C7 as stated fails: after \<open>{videos: ["v1"]}\<close> and then \<open>{channelId: "UC1"}\<close> are put
  under the same key, the read answers with both fields, not with the payload that was
  just written.
\<close>

theorem put_then_get_not_exact:
  "fst (post_cache_get 3000 (Some ''channels'') (Some ''k'')
         (snd (post_cache short_stringify 2000 0 (Some ''k'') (Some channel_payload) (Some ''channels'')
            (snd (post_cache short_stringify 1000 0 (Some ''k'') (Some videos_payload) (Some ''channels'') empty_db)))))
     = Data_fields (JObj [(''videos'', JArr [JStr ''v1'']), (''channelId'', JStr ''UC1'')])
   \<and> fst (post_cache short_stringify 2000 0 (Some ''k'') (Some channel_payload) (Some ''channels'')
            (snd (post_cache short_stringify 1000 0 (Some ''k'') (Some videos_payload) (Some ''channels'') empty_db)))
     = Stored (2000 + 24 * HOUR_MS) ''updated''
   \<and> JObj [(''videos'', JArr [JStr ''v1'']), (''channelId'', JStr ''UC1'')] \<noteq> channel_payload"
  by (simp add: post_cache_def post_cache_get_def on_collection_def post_cache_get_on_def
      select_collection_def invalid_collection_def collection_of_channels channel_payload_def videos_payload_def
      short_stringify_def MAX_DATA_SIZE_def empty_db_def HOUR_MS_def apply_set_def empty_doc_def Let_def
      set_field_def truthy_prop_def live_match_def dataToReturn_def field_if_truthy_def)

section \<open>Rejected cache writes\<close>

lemma post_cache_too_large_unchanged:
  "length (stringify dat) > MAX_DATA_SIZE \<Longrightarrow> snd (post_cache stringify now failures key (Some dat) cn db) = db"
  by (auto simp: post_cache_def split: sum.splits option.splits)

lemma post_cache_too_large_error:
  "length (stringify dat) > MAX_DATA_SIZE \<Longrightarrow>
   \<exists>status msg. fst (post_cache stringify now failures key (Some dat) cn db) = Error_response status msg"
  by (auto simp: post_cache_def select_collection_def invalid_collection_def split: sum.splits option.splits)

lemma post_cache_too_large_413:
  "length (stringify dat) > MAX_DATA_SIZE \<Longrightarrow> k \<noteq> [] \<Longrightarrow> truthy dat \<Longrightarrow> collection_of name = Some c \<Longrightarrow>
   post_cache stringify now failures (Some k) (Some dat) (Some name) db = (Error_response 413 ''Payload too large'', db)"
  by (auto simp: post_cache_def select_collection_def invalid_collection_def collection_of_def split: if_splits)

lemma cacheData_loop_too_large:
  "length (stringify vdata) > MAX_DATA_SIZE \<Longrightarrow>
   \<exists>msg. cacheData_loop stringify reach key vdata cn lastError remaining db = (Inl msg, db)"
proof (induction remaining arbitrary: lastError)
  case 0
  then show ?case by simp
next
  case (Suc remaining)
  show ?case
  proof (cases "reach (3 - Suc remaining)")
    case None
    then show ?thesis using Suc by simp
  next
    case (Some a)
    obtain now failures where a: "a = (now, failures)" by (cases a)
    obtain status msg where r: "post_cache stringify now failures (Some key) (Some vdata) (Some cn) db = (Error_response status msg, db)"
      using post_cache_too_large_error [where stringify = stringify and dat = vdata and now = now
          and failures = failures and key = "Some key" and cn = "Some cn" and db = db]
        post_cache_too_large_unchanged [where stringify = stringify and dat = vdata and now = now
          and failures = failures and key = "Some key" and cn = "Some cn" and db = db]
        Suc.prems
      by (cases "post_cache stringify now failures (Some key) (Some vdata) (Some cn) db") auto
    show ?thesis using Some a r Suc by simp
  qed
qed

lemma updateOne_upsert_holds:
  "upd (previous_doc k ds) \<in> set (snd (updateOne_upsert k upd ds))"
proof (induction ds)
  case Nil
  show ?case by (simp add: previous_doc_def)
next
  case (Cons d ds)
  show ?case
  proof (cases "doc_key d = k")
    case True
    then show ?thesis by (simp add: previous_doc_def)
  next
    case False
    then have "previous_doc k (d # ds) = previous_doc k ds"
      by (simp add: previous_doc_def)
    with False Cons.IH show ?thesis
      by (cases "updateOne_upsert k upd ds") simp
  qed
qed

lemma post_cache_accepts:
  assumes "key \<noteq> []" and "truthy dat" and "collection_of name = Some c"
    and "length (stringify dat) \<le> MAX_DATA_SIZE" and "failures < 3"
  shows "\<exists>op. post_cache stringify now failures (Some key) (Some dat) (Some name) db =
           (Stored (now + cacheExpiry c * HOUR_MS) op,
            db(c := snd (updateOne_upsert key (apply_set key name (now + cacheExpiry c * HOUR_MS) now dat) (db c))))"
proof -
  from assms(3) have "name \<noteq> []"
    by (auto simp: collection_of_def)
  with assms show ?thesis
    by (simp add: post_cache_def select_collection_def Let_def split: prod.splits)
qed

text \<open>
  Claim C8, as the code has it. The check for recognised fields is made by \<open>cacheData\<close>
  in the browser: it throws \<open>No valid data to cache\<close> when its projection keeps no
  recognised field, before any request is sent, so the database is as it was. The route
  answers 413 \<open>Payload too large\<close> when the serialised \<open>data\<close> is longer than
  \<open>MAX_DATA_SIZE\<close> = 10 MiB, and whatever it answers to such a request it writes nothing;
  through \<open>cacheData\<close> such a payload ends in a thrown error with the database unchanged.
  The route itself never looks at the recognised fields: every request with a key, a
  truthy \<open>data\<close> within the size limit and one of the four collections is stored, as long
  as \<open>updateOne\<close> succeeds within three tries.
\<close>

theorem rejected_writes_store_nothing:
  "(validatedData data = [] \<longrightarrow> (\<exists>msg. cacheData stringify reach key data cn db = (Inl msg, db)))
   \<and> (validatedData data = [] \<and> key \<noteq> [] \<and> truthy data \<longrightarrow>
         cacheData stringify reach key data cn db = (Inl ''No valid data to cache'', db))
   \<and> (length (stringify dat) > MAX_DATA_SIZE \<longrightarrow>
         snd (post_cache stringify now failures k (Some dat) cname db) = db
       \<and> (\<exists>status msg. fst (post_cache stringify now failures k (Some dat) cname db) = Error_response status msg))
   \<and> (length (stringify dat) > MAX_DATA_SIZE \<and> key \<noteq> [] \<and> truthy dat \<and> collection_of name = Some c \<longrightarrow>
         post_cache stringify now failures (Some key) (Some dat) (Some name) db
           = (Error_response 413 ''Payload too large'', db))
   \<and> (length (stringify (JObj (validatedData data))) > MAX_DATA_SIZE \<longrightarrow>
         (\<exists>msg. cacheData stringify reach key data cn db = (Inl msg, db)))
   \<and> (length (stringify dat) \<le> MAX_DATA_SIZE \<and> key \<noteq> [] \<and> truthy dat \<and> collection_of name = Some c \<and> failures < 3 \<longrightarrow>
         (\<exists>op. fst (post_cache stringify now failures (Some key) (Some dat) (Some name) db)
                  = Stored (now + cacheExpiry c * HOUR_MS) op)
       \<and> apply_set key name (now + cacheExpiry c * HOUR_MS) now dat (previous_doc key (db c))
           \<in> set (snd (post_cache stringify now failures (Some key) (Some dat) (Some name) db) c))"
proof (intro conjI impI)
  assume "validatedData data = []"
  then show "\<exists>msg. cacheData stringify reach key data cn db = (Inl msg, db)"
    by (simp add: cacheData_def)
next
  assume "validatedData data = [] \<and> key \<noteq> [] \<and> truthy data"
  then show "cacheData stringify reach key data cn db = (Inl ''No valid data to cache'', db)"
    by (simp add: cacheData_def)
next
  assume "length (stringify dat) > MAX_DATA_SIZE"
  then show "snd (post_cache stringify now failures k (Some dat) cname db) = db"
    by (rule post_cache_too_large_unchanged)
next
  assume "length (stringify dat) > MAX_DATA_SIZE"
  then show "\<exists>status msg. fst (post_cache stringify now failures k (Some dat) cname db) = Error_response status msg"
    by (rule post_cache_too_large_error)
next
  assume "length (stringify dat) > MAX_DATA_SIZE \<and> key \<noteq> [] \<and> truthy dat \<and> collection_of name = Some c"
  then show "post_cache stringify now failures (Some key) (Some dat) (Some name) db
           = (Error_response 413 ''Payload too large'', db)"
    using post_cache_too_large_413 [of stringify dat key name c now failures db] by simp
next
  assume big: "length (stringify (JObj (validatedData data))) > MAX_DATA_SIZE"
  show "\<exists>msg. cacheData stringify reach key data cn db = (Inl msg, db)"
    using cacheData_loop_too_large [where stringify = stringify and vdata = "JObj (validatedData data)"
        and reach = reach and key = key and cn = cn and lastError = "[]" and remaining = 3 and db = db] big
    by (simp add: cacheData_def)
next
  assume h: "length (stringify dat) \<le> MAX_DATA_SIZE \<and> key \<noteq> [] \<and> truthy dat \<and> collection_of name = Some c \<and> failures < 3"
  then obtain op where op: "post_cache stringify now failures (Some key) (Some dat) (Some name) db =
           (Stored (now + cacheExpiry c * HOUR_MS) op,
            db(c := snd (updateOne_upsert key (apply_set key name (now + cacheExpiry c * HOUR_MS) now dat) (db c))))"
    using post_cache_accepts [of key dat name c stringify failures now db] by blast
  show "\<exists>op. fst (post_cache stringify now failures (Some key) (Some dat) (Some name) db)
                  = Stored (now + cacheExpiry c * HOUR_MS) op"
    using op by simp
  show "apply_set key name (now + cacheExpiry c * HOUR_MS) now dat (previous_doc key (db c))
           \<in> set (snd (post_cache stringify now failures (Some key) (Some dat) (Some name) db) c)"
    using op updateOne_upsert_holds [of "apply_set key name (now + cacheExpiry c * HOUR_MS) now dat" key "db c"]
    by simp
qed

theorem rejected_writes_store_nothing_witness:
  "validatedData unrecognised_payload = []
   \<and> cacheData short_stringify reach_always ''k'' unrecognised_payload ''channels'' empty_db
       = (Inl ''No valid data to cache'', empty_db)
   \<and> length (long_stringify videos_payload) > MAX_DATA_SIZE
   \<and> post_cache long_stringify 1000 0 (Some ''k'') (Some videos_payload) (Some ''channels'') empty_db
       = (Error_response 413 ''Payload too large'', empty_db)
   \<and> (\<exists>msg. cacheData long_stringify reach_always ''k'' videos_payload ''channels'' empty_db = (Inl msg, empty_db))
   \<and> (\<exists>op. fst (post_cache short_stringify 1000 0 (Some ''k'') (Some videos_payload) (Some ''channels'') empty_db)
              = Stored (1000 + 24 * HOUR_MS) op)
   \<and> apply_set ''k'' ''channels'' (1000 + 24 * HOUR_MS) 1000 videos_payload (empty_doc ''k'')
       \<in> set (snd (post_cache short_stringify 1000 0 (Some ''k'') (Some videos_payload) (Some ''channels'') empty_db) Channels)"
proof -
  have v: "validatedData unrecognised_payload = []"
    by (simp add: validatedData_def unrecognised_payload_def field_if_def)
  have t: "truthy unrecognised_payload" "truthy videos_payload"
    by (simp_all add: unrecognised_payload_def videos_payload_def)
  have l: "length (long_stringify j) > MAX_DATA_SIZE" for j
    by (simp add: long_stringify_def)
  have sh: "length (short_stringify j) \<le> MAX_DATA_SIZE" for j
    by (simp add: short_stringify_def MAX_DATA_SIZE_def)
  have p: "previous_doc ''k'' (empty_db Channels) = empty_doc ''k''"
    by (simp add: previous_doc_def empty_db_def)
  have e: "cacheExpiry Channels = 24"
    by simp
  show ?thesis
    using rejected_writes_store_nothing [where data = unrecognised_payload and stringify = short_stringify
        and reach = reach_always and key = "''k''" and cn = "''channels''" and db = empty_db, THEN conjunct2, THEN conjunct1]
      rejected_writes_store_nothing [where data = videos_payload and dat = videos_payload and stringify = long_stringify
        and reach = reach_always and key = "''k''" and cn = "''channels''" and db = empty_db
        and name = "''channels''" and c = Channels and now = 1000 and failures = 0, THEN conjunct2, THEN conjunct2, THEN conjunct2]
      rejected_writes_store_nothing [where data = videos_payload and dat = videos_payload and stringify = short_stringify
        and reach = reach_always and key = "''k''" and cn = "''channels''" and db = empty_db
        and name = "''channels''" and c = Channels and now = 1000 and failures = 0,
        THEN conjunct2, THEN conjunct2, THEN conjunct2, THEN conjunct2, THEN conjunct2]
      v t l sh p e collection_of_channels
    by simp
qed

text \<open>
  Claim C8 as stated fails on the route: \<open>POST /cache\<close> with the data \<open>{foo: 1}\<close>, which
  has no recognised field at all, is answered with 200 and the operation \<open>inserted\<close>, and
  a document holding the key, the collection and the dates is written.
\<close>

theorem route_stores_payload_without_recognised_fields:
  "recognised unrecognised_payload = JObj []
   \<and> validatedData unrecognised_payload = []
   \<and> post_cache short_stringify 1000 0 (Some ''k'') (Some unrecognised_payload) (Some ''channels'') empty_db
       = (Stored (1000 + 24 * HOUR_MS) ''inserted'',
          empty_db(Channels :=
            [\<lparr>doc_key = ''k'', doc_collection = Some ''channels'', expiresAt = Some (1000 + 24 * HOUR_MS),
              updatedAt = Some 1000, cacheVersion = Some ''1.0'', doc_videos = None, doc_channelId = None,
              doc_uploadsPlaylistId = None, doc_categories = None\<rparr>]))"
  by (simp add: recognised_def validatedData_def unrecognised_payload_def field_if_def field_if_truthy_def
      post_cache_def select_collection_def collection_of_channels short_stringify_def MAX_DATA_SIZE_def
      empty_db_def apply_set_def empty_doc_def set_field_def truthy_prop_def Let_def)

section \<open>The request made for a handle\<close>

lemma dropWhile_keeps:
  "x \<in> set xs \<Longrightarrow> \<not> P x \<Longrightarrow> x \<in> set (dropWhile P xs)"
  by (induction xs) auto

lemma trim_keeps:
  assumes "x \<in> set s" and "\<not> js_whitespace x"
  shows "x \<in> set (trim s)"
proof -
  have "x \<in> set (rev (dropWhile js_whitespace s))"
    using dropWhile_keeps [of x s js_whitespace] assms by simp
  then have "x \<in> set (dropWhile js_whitespace (rev (dropWhile js_whitespace s)))"
    using dropWhile_keeps [of x "rev (dropWhile js_whitespace s)" js_whitespace] assms(2) by simp
  then show ?thesis by (simp add: trim_def)
qed

lemma filter_absent:
  "a \<notin> set xs \<Longrightarrow> filter (\<lambda>c. c \<noteq> a) xs = xs"
  by (induction xs) auto

lemma remove1_is_filter:
  "a \<notin> set (remove1 a xs) \<Longrightarrow> remove1 a xs = filter (\<lambda>c. c \<noteq> a) xs"
proof (induction xs)
  case Nil
  then show ?case by simp
next
  case (Cons x xs)
  show ?case
  proof (cases "x = a")
    case True
    with Cons.prems have "a \<notin> set xs" by simp
    with True show ?thesis by (simp add: filter_absent)
  next
    case False
    with Cons show ?thesis by simp
  qed
qed

lemma handle_pattern_no_at:
  "handle_pattern s \<Longrightarrow> AT_SIGN \<notin> set s"
  by (auto simp: handle_pattern_def list_all_iff handle_char_def AT_SIGN_def)

lemma at_not_whitespace: "\<not> js_whitespace AT_SIGN"
  by (simp add: js_whitespace_def AT_SIGN_def)

lemma clean_handle_without_ats:
  assumes "handle_pattern (trim (replace_at h))"
  shows "trim (replace_at h) = without_ats h"
proof -
  have "AT_SIGN \<notin> set (trim (replace_at h))"
    using assms by (rule handle_pattern_no_at)
  then have "AT_SIGN \<notin> set (replace_at h)"
    using trim_keeps [OF _ at_not_whitespace] by blast
  then have "replace_at h = filter (\<lambda>c. c \<noteq> AT_SIGN) h"
    unfolding replace_at_def by (rule remove1_is_filter)
  then show ?thesis by (simp add: without_ats_def)
qed

lemma resolve_handle_strings:
  "(resolve_handle handle = Https_get url \<longrightarrow>
      (\<exists>h. handle = Some (Q_string h) \<and> url = units ''https://www.youtube.com/@'' @ without_ats h
           \<and> without_ats h = trim (replace_at h) \<and> handle_pattern (without_ats h)))
   \<and> (handle = Some (Q_string h) \<and> \<not> handle_pattern (without_ats h) \<longrightarrow>
        (\<exists>msg. resolve_handle handle = Respond 400 msg))
   \<and> (handle = None \<longrightarrow> resolve_handle handle = Respond 400 ''Handle is required'')
   \<and> (handle = Some (Q_string h) \<and> handle_pattern (trim (replace_at h)) \<longrightarrow>
        resolve_handle handle = Https_get (units ''https://www.youtube.com/@'' @ without_ats h))"
proof (intro conjI impI)
  assume get: "resolve_handle handle = Https_get url"
  then obtain q where q: "handle = Some q"
    by (cases handle) (simp_all add: resolve_handle_def)
  with get obtain h where h: "handle = Some (Q_string h)"
    by (cases q) (simp_all add: resolve_handle_def)
  from get h have ok: "handle_pattern (trim (replace_at h))"
    and url: "url = units ''https://www.youtube.com/@'' @ trim (replace_at h)"
    by (auto simp: resolve_handle_def Let_def split: if_splits)
  from clean_handle_without_ats [OF ok] ok url h
  show "\<exists>h. handle = Some (Q_string h) \<and> url = units ''https://www.youtube.com/@'' @ without_ats h
           \<and> without_ats h = trim (replace_at h) \<and> handle_pattern (without_ats h)"
    by simp
next
  assume a: "handle = Some (Q_string h) \<and> \<not> handle_pattern (without_ats h)"
  then have "\<not> handle_pattern (trim (replace_at h))"
    using clean_handle_without_ats [of h] by auto
  with a show "\<exists>msg. resolve_handle handle = Respond 400 msg"
    by (simp add: resolve_handle_def)
next
  assume "handle = None"
  then show "resolve_handle handle = Respond 400 ''Handle is required''"
    by (simp add: resolve_handle_def)
next
  assume a: "handle = Some (Q_string h) \<and> handle_pattern (trim (replace_at h))"
  then have "h \<noteq> []"
    by (auto simp: replace_at_def trim_def handle_pattern_def)
  with a clean_handle_without_ats [of h]
  show "resolve_handle handle = Https_get (units ''https://www.youtube.com/@'' @ without_ats h)"
    by (simp add: resolve_handle_def Let_def)
qed

lemma resolve_handle_examples:
  "resolve_handle (Some (Q_string (units ''@ab_1 ''))) = Https_get (units ''https://www.youtube.com/@ab_1'')
   \<and> without_ats (units ''@ab_1 '') = units ''ab_1''
   \<and> resolve_handle (Some (Q_string (units ''a/b''))) = Respond 400 ''Invalid handle format''
   \<and> resolve_handle (Some (Q_string (units ''@@ab''))) = Respond 400 ''Invalid handle format''
   \<and> resolve_handle None = Respond 400 ''Handle is required''"
proof -
  have w: "without_ats (units ''@ab_1 '') = units ''ab_1''"
    by (simp add: without_ats_def units_def trim_def js_whitespace_def AT_SIGN_def)
  have c: "trim (replace_at (units ''@ab_1 '')) = units ''ab_1''"
    by (simp add: replace_at_def units_def trim_def js_whitespace_def AT_SIGN_def)
  have p: "handle_pattern (units ''ab_1'')"
    by (simp add: handle_pattern_def units_def handle_char_def)
  have m1: "resolve_handle (Some (Q_string (units ''a/b''))) = Respond 400 ''Invalid handle format''"
    by (simp add: resolve_handle_def replace_at_def units_def trim_def js_whitespace_def AT_SIGN_def
        handle_pattern_def handle_char_def)
  have m2: "resolve_handle (Some (Q_string (units ''@@ab''))) = Respond 400 ''Invalid handle format''"
    by (simp add: resolve_handle_def replace_at_def units_def trim_def js_whitespace_def AT_SIGN_def
        handle_pattern_def handle_char_def)
  have g: "resolve_handle (Some (Q_string (units ''@ab_1 ''))) = Https_get (units ''https://www.youtube.com/@'' @ without_ats (units ''@ab_1 ''))"
    using resolve_handle_strings [where handle = "Some (Q_string (units ''@ab_1 ''))"
        and h = "units ''@ab_1 ''" and url = "[]", THEN conjunct2, THEN conjunct2, THEN conjunct2] c p
    by simp
  have u: "units ''https://www.youtube.com/@'' @ units ''ab_1'' = units ''https://www.youtube.com/@ab_1''"
    by (simp add: units_def)
  have z: "resolve_handle None = Respond 400 ''Handle is required''"
    by (simp add: resolve_handle_def)
  show ?thesis
    using g w u m1 m2 z by simp
qed

text \<open>
  Claim C10. For a handle that is a string, and for an absent one, the route does what
  the claim says (\<open>resolve_handle_strings\<close>): it calls \<open>https.get\<close> only on
  \<open>https://www.youtube.com/@\<close> followed by the handle with its \<open>@\<close> removed and trimmed,
  only when that string matches \<open>^[a-zA-Z0-9_-]{1,100}$\<close>, and it answers 400 otherwise.
  The claim fails for a handle that is not a string: for \<open>?handle=a&handle=b\<close> the route
  throws at \<open>handle.replace\<close>, outside its \<open>try\<close>. No request is made, but no answer is
  sent either, so the handle is not answered with status 400.
\<close>

theorem structured_handle_is_not_answered:
  "resolve_handle (Some Q_structured) = Throws ''TypeError: handle.replace is not a function''
   \<and> (\<forall>status msg. resolve_handle (Some Q_structured) \<noteq> Respond status msg)
   \<and> (\<forall>url. resolve_handle (Some Q_structured) \<noteq> Https_get url)"
  by (simp add: resolve_handle_def)

section \<open>Quota errors and retries\<close>












section \<open>Loading a playlist\<close>




lemma collection_of_playlists_name: "select_collection (Some ''playlists'') = Inr Playlists"
  by (simp add: select_collection_def invalid_collection_def collection_of_playlists)





lemma loadPlaylistData_background_cache:
  assumes "getCachedData (out_reach_get out (rotations (key_world s))) (''playlist_'' @ plid) ''playlists'' (cache_db s) = (None, db1)"
    and "fetch_pages (out_pages out) (out_stats out) (getCurrentApiKey (key_world s)) [] [] = Some (Inr allVideos)"
    and "allVideos \<noteq> []"
  shows "loadPlaylistData env out plid s =
           Some (Inr (), s\<lparr>cache_db := snd (cacheData (out_stringify out) (out_reach_put out) (''playlist_'' @ plid)
                                              (JObj [(''videos'', JArr allVideos)]) ''playlists'' db1),
                            loaded_videos := Some allVideos\<rparr>)"
  using assms by (subst loadPlaylistData.simps) (simp split: prod.splits)

lemma one_page_fetch:
  "fetch_pages (out_pages (one_page_outside put)) (out_stats (one_page_outside put)) key [] []
     = Some (Inr [JObj [(''id'', JStr ''v1'')]])"
  by (subst fetch_pages.simps) (simp add: one_page_outside_def page_videos_def joined_ids_def)

lemma playlist_cache_miss:
  "getCachedData (Some 1000) ''playlist_PL1'' ''playlists'' empty_db = (None, empty_db)"
  by (simp add: getCachedData_def post_cache_get_def on_collection_def collection_of_playlists_name
      post_cache_get_on_def empty_db_def fun_upd_idem)

lemma playlist_store_down_write:
  "cacheData short_stringify reach_store_down ''playlist_PL1''
      (JObj [(''videos'', JArr [JObj [(''id'', JStr ''v1'')]])]) ''playlists'' empty_db
     = (Inl ''Failed to store cache'', empty_db)"
  by (simp add: cacheData_def validatedData_def field_if_def numeral_3_eq_3
      reach_store_down_def post_cache_def collection_of_playlists_name
      short_stringify_def MAX_DATA_SIZE_def)

lemma playlist_loaded_with_store_down:
  "loadPlaylistData env_three_keys (one_page_outside reach_store_down) ''PL1'' (initial_session env_three_keys)
     = Some (Inr (), (initial_session env_three_keys)\<lparr>cache_db := empty_db,
                        loaded_videos := Some [JObj [(''id'', JStr ''v1'')]]\<rparr>)"
proof -
  have m: "getCachedData (out_reach_get (one_page_outside reach_store_down) (rotations (key_world (initial_session env_three_keys))))
      (''playlist_'' @ ''PL1'') ''playlists'' (cache_db (initial_session env_three_keys)) = (None, empty_db)"
    using playlist_cache_miss by (simp add: one_page_outside_def initial_session_def)
  have w: "snd (cacheData (out_stringify (one_page_outside reach_store_down)) (out_reach_put (one_page_outside reach_store_down))
      (''playlist_'' @ ''PL1'') (JObj [(''videos'', JArr [JObj [(''id'', JStr ''v1'')]])]) ''playlists'' empty_db) = empty_db"
    using playlist_store_down_write by (simp add: one_page_outside_def)
  show ?thesis
    using loadPlaylistData_background_cache [OF m one_page_fetch, of env_three_keys] w by simp
qed





section \<open>What the batches put into the result\<close>

lemma find_by_title:
  assumes "find (\<lambda>v. x = Some (JStr (title v))) videos = Some ov"
  shows "x = Some (JStr (title ov))" and "first_with_title videos ov"
proof -
  show x: "x = Some (JStr (title ov))"
    using assms by (auto simp: find_Some_iff)
  have "(\<lambda>v. x = Some (JStr (title v))) = (\<lambda>w. title w = title ov)"
    unfolding x by auto
  then have "find (\<lambda>w. title w = title ov) videos = find (\<lambda>v. x = Some (JStr (title v))) videos"
    by (rule arg_cong [where f = "\<lambda>P. find P videos", symmetric])
  with assms show "first_with_title videos ov"
    by (simp only: first_with_title_def)
qed

lemma first_with_title_mem: "first_with_title videos v \<Longrightarrow> v \<in> set videos"
  by (auto simp: first_with_title_def find_Some_iff)

lemma first_with_title_inj:
  "first_with_title videos v \<Longrightarrow> first_with_title videos w \<Longrightarrow> title v = title w \<Longrightarrow> v = w"
  by (simp add: first_with_title_def)

lemma append_videos_keys: "map fst (append_videos name vs cats) = map fst cats"
  by (induction cats) (auto simp: append_videos_def)

lemma append_videos_absent:
  "name \<notin> set (map fst cats) \<Longrightarrow> append_videos name vs cats = cats"
  by (induction cats) (auto simp: append_videos_def)

lemma items_append_videos_present:
  "distinct (map fst cats) \<Longrightarrow> name \<in> set (map fst cats) \<Longrightarrow>
   mset (items (append_videos name vs cats)) = mset (items cats) + mset vs"
proof (induction cats)
  case Nil
  then show ?case by simp
next
  case (Cons c cats)
  obtain k ws where c: "c = (k, ws)" by (cases c)
  show ?case
  proof (cases "k = name")
    case True
    with Cons.prems c have "name \<notin> set (map fst cats)" by auto
    then have "append_videos name vs cats = cats" by (rule append_videos_absent)
    then have "append_videos name vs (c # cats) = (k, ws @ vs) # cats"
      using True c by (simp add: append_videos_def)
    then show ?thesis using c by (simp add: items_def)
  next
    case False
    with Cons.prems c have "distinct (map fst cats)" "name \<in> set (map fst cats)" by auto
    from Cons.IH [OF this] have "mset (items (append_videos name vs cats)) = mset (items cats) + mset vs" .
    moreover have "append_videos name vs (c # cats) = (k, ws) # append_videos name vs cats"
      using False c by (simp add: append_videos_def)
    ultimately show ?thesis using c by (simp add: items_def)
  qed
qed

lemma items_append_videos_le:
  assumes "distinct (map fst cats)"
  shows "mset (items (append_videos name vs cats)) \<subseteq># mset (items cats) + mset vs"
proof (cases "name \<in> set (map fst cats)")
  case True
  then show ?thesis using items_append_videos_present [OF assms True, of vs] by simp
next
  case False
  then show ?thesis by (simp add: append_videos_absent)
qed

lemma ensure_category_keys: "distinct (map fst cats) \<Longrightarrow> distinct (map fst (ensure_category name cats))"
  by (auto simp: ensure_category_def)

lemma ensure_category_items: "items (ensure_category name cats) = items cats"
  by (simp add: ensure_category_def items_def)

lemma push_video_inv:
  assumes "push_video name v cats = Inr cats'" and "distinct (map fst cats)"
  shows "distinct (map fst cats')" and "mset (items cats') = mset (items cats) + {#v#}"
proof -
  from assms(1) have present: "name \<in> set (map fst cats)" and eq: "cats' = append_videos name [v] cats"
    by (auto simp: push_video_def split: if_splits)
  show "distinct (map fst cats')"
    using assms(2) eq by (simp add: append_videos_keys)
  show "mset (items cats') = mset (items cats) + {#v#}"
    using items_append_videos_present [OF assms(2) present, of "[v]"] eq by simp
qed

lemma resolve_videos_inv:
  "resolve_videos videos name infos cats = Inr cats' \<Longrightarrow> distinct (map fst cats) \<Longrightarrow>
   distinct (map fst cats')
   \<and> mset (map title (items cats')) \<subseteq># mset (map title (items cats)) + mset (info_titles infos)
   \<and> ((\<forall>v\<in>set (items cats). first_with_title videos v) \<longrightarrow> (\<forall>v\<in>set (items cats'). first_with_title videos v))"
proof (induction infos arbitrary: cats)
  case Nil
  then show ?case by (simp add: info_titles_def)
next
  case (Cons videoInfo rest)
  from Cons.prems(1) have notnull: "videoInfo \<noteq> JNull"
    by (auto split: if_splits)
  show ?case
  proof (cases "find (\<lambda>v. get_prop videoInfo ''title'' = Some (JStr (title v))) videos")
    case None
    with Cons.prems notnull have run: "resolve_videos videos name rest cats = Inr cats'"
      by simp
    from Cons.IH [OF run Cons.prems(2)]
    have ih: "distinct (map fst cats')"
      "mset (map title (items cats')) \<subseteq># mset (map title (items cats)) + mset (info_titles rest)"
      "(\<forall>v\<in>set (items cats). first_with_title videos v) \<longrightarrow> (\<forall>v\<in>set (items cats'). first_with_title videos v)"
      by simp_all
    have "mset (info_titles rest) \<subseteq># mset (info_titles (videoInfo # rest))"
      by (simp add: info_titles_def)
    then have "mset (map title (items cats)) + mset (info_titles rest)
        \<subseteq># mset (map title (items cats)) + mset (info_titles (videoInfo # rest))"
      by (simp only: mset_subset_eq_mono_add_left_cancel)
    with ih(2) have "mset (map title (items cats')) \<subseteq># mset (map title (items cats)) + mset (info_titles (videoInfo # rest))"
      by (rule subset_mset.order_trans)
    with ih(1,3) show ?thesis by simp
  next
    case (Some ov)
    from find_by_title [OF Some]
    have t: "get_prop videoInfo ''title'' = Some (JStr (title ov))" and f: "first_with_title videos ov"
      by simp_all
    from Cons.prems(1) notnull Some obtain cats1 where
      push: "push_video name ov cats = Inr cats1" and run: "resolve_videos videos name rest cats1 = Inr cats'"
      by (auto split: sum.splits)
    from push_video_inv [OF push Cons.prems(2)]
    have d1: "distinct (map fst cats1)" and m1: "mset (items cats1) = mset (items cats) + {#ov#}"
      by simp_all
    from Cons.IH [OF run d1]
    have ih: "distinct (map fst cats')"
      "mset (map title (items cats')) \<subseteq># mset (map title (items cats1)) + mset (info_titles rest)"
      "(\<forall>v\<in>set (items cats1). first_with_title videos v) \<longrightarrow> (\<forall>v\<in>set (items cats'). first_with_title videos v)"
      by simp_all
    have m1t: "mset (map title (items cats1)) = mset (map title (items cats)) + {#title ov#}"
      using m1 by (metis (no_types) image_mset_single image_mset_union mset_map)
    have it: "mset (info_titles (videoInfo # rest)) = {#title ov#} + mset (info_titles rest)"
      using t by (simp add: info_titles_def)
    have le: "mset (map title (items cats')) \<subseteq># mset (map title (items cats)) + mset (info_titles (videoInfo # rest))"
      using ih(2) unfolding m1t it by (simp add: ac_simps)
    have s1: "set (items cats1) = set (items cats) \<union> {ov}"
      using m1 by (metis (no_types) set_mset_mset set_mset_union set_mset_single)
    have "(\<forall>v\<in>set (items cats). first_with_title videos v) \<longrightarrow> (\<forall>v\<in>set (items cats'). first_with_title videos v)"
      using ih(3) f s1 by auto
    with ih(1) le show ?thesis by simp
  qed
qed

lemma group_categories_inv:
  "group_categories videos groups cats = Inr cats' \<Longrightarrow> distinct (map fst cats) \<Longrightarrow>
   distinct (map fst cats')
   \<and> mset (map title (items cats')) \<subseteq># mset (map title (items cats)) + mset (group_titles groups)
   \<and> ((\<forall>v\<in>set (items cats). first_with_title videos v) \<longrightarrow> (\<forall>v\<in>set (items cats'). first_with_title videos v))"
proof (induction groups arbitrary: cats)
  case Nil
  then show ?case by (simp add: group_titles_def)
next
  case (Cons categoryObj rest)
  from Cons.prems(1) have notnull: "categoryObj \<noteq> JNull"
    by (auto split: if_splits)
  show ?case
  proof (cases "valid_group categoryObj")
    case None
    with Cons.prems notnull have run: "group_categories videos rest cats = Inr cats'"
      by simp
    have "group_titles (categoryObj # rest) = group_titles rest"
      using None by (simp add: group_titles_def)
    with Cons.IH [OF run Cons.prems(2)] show ?thesis by simp
  next
    case (Some g)
    obtain name infos where g: "g = (name, infos)" by (cases g)
    from Cons.prems(1) notnull Some g obtain cats1 where
      res: "resolve_videos videos name infos (ensure_category name cats) = Inr cats1"
      and run: "group_categories videos rest cats1 = Inr cats'"
      by (auto split: sum.splits)
    from resolve_videos_inv [OF res ensure_category_keys [OF Cons.prems(2)]]
    have r: "distinct (map fst cats1)"
      "mset (map title (items cats1)) \<subseteq># mset (map title (items cats)) + mset (info_titles infos)"
      "(\<forall>v\<in>set (items cats). first_with_title videos v) \<longrightarrow> (\<forall>v\<in>set (items cats1). first_with_title videos v)"
      by (simp_all add: ensure_category_items)
    from Cons.IH [OF run r(1)]
    have ih: "distinct (map fst cats')"
      "mset (map title (items cats')) \<subseteq># mset (map title (items cats1)) + mset (group_titles rest)"
      "(\<forall>v\<in>set (items cats1). first_with_title videos v) \<longrightarrow> (\<forall>v\<in>set (items cats'). first_with_title videos v)"
      by simp_all
    have gt: "mset (group_titles (categoryObj # rest)) = mset (info_titles infos) + mset (group_titles rest)"
      using Some g by (simp add: group_titles_def)
    have "mset (map title (items cats1)) + mset (group_titles rest)
        \<subseteq># (mset (map title (items cats)) + mset (info_titles infos)) + mset (group_titles rest)"
      using r(2) by (simp only: mset_subset_eq_mono_add_right_cancel)
    with ih(2) have "mset (map title (items cats')) \<subseteq># (mset (map title (items cats)) + mset (info_titles infos)) + mset (group_titles rest)"
      by (rule subset_mset.order_trans)
    then have "mset (map title (items cats')) \<subseteq># mset (map title (items cats)) + mset (group_titles (categoryObj # rest))"
      unfolding gt by (simp add: ac_simps)
    with ih(1,3) r(3) show ?thesis by simp
  qed
qed

lemma processBatch_inv:
  assumes "processBatch videos reply = Inr cats"
  shows "distinct (map fst cats)"
    and "mset (map title (items cats)) \<subseteq># mset (reply_titles reply)"
    and "\<forall>v\<in>set (items cats). first_with_title videos v"
proof -
  have "distinct (map fst cats) \<and> mset (map title (items cats)) \<subseteq># mset (reply_titles reply)
      \<and> (\<forall>v\<in>set (items cats). first_with_title videos v)"
  proof (cases reply)
    case (Request_fails msg)
    with assms show ?thesis by (simp add: processBatch_def)
  next
    case Unparsable
    with assms show ?thesis by (simp add: processBatch_def items_def)
  next
    case (Parsed j)
    with assms obtain groups where j: "j = JArr groups" and run: "group_categories videos groups [] = Inr cats"
      by (cases j) (simp_all add: processBatch_def)
    from group_categories_inv [OF run] Parsed j show ?thesis
      by (simp add: reply_titles_def items_def)
  qed
  then show "distinct (map fst cats)" and "mset (map title (items cats)) \<subseteq># mset (reply_titles reply)"
    and "\<forall>v\<in>set (items cats). first_with_title videos v"
    by simp_all
qed

lemma merge_batch_inv:
  "distinct (map fst allCategories) \<Longrightarrow>
   distinct (map fst (merge_batch batchCategories allCategories))
   \<and> mset (items (merge_batch batchCategories allCategories)) \<subseteq># mset (items allCategories) + mset (items batchCategories)"
proof (induction batchCategories arbitrary: allCategories)
  case Nil
  then show ?case by (simp add: items_def)
next
  case (Cons c batchCategories)
  obtain name vs where c: "c = (name, vs)" by (cases c)
  let ?a = "append_videos name vs (ensure_category name allCategories)"
  have d: "distinct (map fst ?a)"
    using ensure_category_keys [OF Cons.prems] by (simp add: append_videos_keys)
  have le1: "mset (items ?a) \<subseteq># mset (items allCategories) + mset vs"
    using items_append_videos_le [OF ensure_category_keys [OF Cons.prems], of name vs name]
    by (simp add: ensure_category_items)
  from Cons.IH [OF d]
  have ih: "distinct (map fst (merge_batch batchCategories ?a))"
    "mset (items (merge_batch batchCategories ?a)) \<subseteq># mset (items ?a) + mset (items batchCategories)"
    by simp_all
  have "mset (items ?a) + mset (items batchCategories) \<subseteq># (mset (items allCategories) + mset vs) + mset (items batchCategories)"
    using le1 by (simp only: mset_subset_eq_mono_add_right_cancel)
  with ih(2) have "mset (items (merge_batch batchCategories ?a)) \<subseteq># (mset (items allCategories) + mset vs) + mset (items batchCategories)"
    by (rule subset_mset.order_trans)
  then have "mset (items (merge_batch (c # batchCategories) allCategories)) \<subseteq># mset (items allCategories) + mset (items (c # batchCategories))"
    using c by (simp add: items_def ac_simps)
  with ih(1) c show ?case by simp
qed

lemma merge_results_inv:
  "distinct (map fst allCategories) \<Longrightarrow>
   distinct (map fst (merge_results results allCategories))
   \<and> mset (items (merge_results results allCategories)) \<subseteq># mset (items allCategories) + mset (concat (map items results))"
proof (induction results arbitrary: allCategories)
  case Nil
  then show ?case by simp
next
  case (Cons b results)
  from merge_batch_inv [OF Cons.prems, of b]
  have m: "distinct (map fst (merge_batch b allCategories))"
    "mset (items (merge_batch b allCategories)) \<subseteq># mset (items allCategories) + mset (items b)"
    by simp_all
  from Cons.IH [OF m(1)]
  have ih: "distinct (map fst (merge_results results (merge_batch b allCategories)))"
    "mset (items (merge_results results (merge_batch b allCategories)))
       \<subseteq># mset (items (merge_batch b allCategories)) + mset (concat (map items results))"
    by simp_all
  have "mset (items (merge_batch b allCategories)) + mset (concat (map items results))
      \<subseteq># (mset (items allCategories) + mset (items b)) + mset (concat (map items results))"
    using m(2) by (simp only: mset_subset_eq_mono_add_right_cancel)
  with ih(2) have "mset (items (merge_results results (merge_batch b allCategories)))
      \<subseteq># (mset (items allCategories) + mset (items b)) + mset (concat (map items results))"
    by (rule subset_mset.order_trans)
  then show ?case using ih(1) by (simp add: ac_simps)
qed

lemma promise_all_items:
  "promise_all ps = Inr results \<Longrightarrow> concat (map items results) = concat (map settled_items ps)"
proof (induction ps arbitrary: results)
  case Nil
  then show ?case by simp
next
  case (Cons p ps)
  then obtain c cs where p: "p = Inr c" and cs: "promise_all ps = Inr cs" and r: "results = c # cs"
    by (cases p) (auto split: sum.splits)
  from Cons.IH [OF cs] p r show ?case by (simp add: settled_items_def)
qed

lemma run_batches_inv:
  "run_batches videos replies nbatches idxs pending allCategories = Inr final \<Longrightarrow>
   distinct (map fst allCategories) \<Longrightarrow>
   distinct (map fst final)
   \<and> mset (items final) \<subseteq># mset (items allCategories) + mset (concat (map settled_items pending))
        + mset (concat (map (\<lambda>i. settled_items (processBatch videos (replies i))) idxs))"
proof (induction idxs arbitrary: pending allCategories)
  case Nil
  then show ?case by simp
next
  case (Cons i rest)
  let ?p = "pending @ [processBatch videos (replies i)]"
  show ?case
  proof (cases "length ?p \<ge> MAX_PARALLEL \<or> i = nbatches - 1")
    case True
    with Cons.prems(1) obtain results where
      all: "promise_all ?p = Inr results"
      and run: "run_batches videos replies nbatches rest [] (merge_results results allCategories) = Inr final"
      by (auto simp: Let_def split: sum.splits)
    from merge_results_inv [OF Cons.prems(2), of results]
    have m: "distinct (map fst (merge_results results allCategories))"
      "mset (items (merge_results results allCategories)) \<subseteq># mset (items allCategories) + mset (concat (map items results))"
      by simp_all
    from Cons.IH [OF run m(1)]
    have ih: "distinct (map fst final)"
      "mset (items final) \<subseteq># mset (items (merge_results results allCategories))
          + mset (concat (map (\<lambda>i. settled_items (processBatch videos (replies i))) rest))"
      by simp_all
    have "mset (items (merge_results results allCategories))
          + mset (concat (map (\<lambda>i. settled_items (processBatch videos (replies i))) rest))
        \<subseteq># (mset (items allCategories) + mset (concat (map items results)))
          + mset (concat (map (\<lambda>i. settled_items (processBatch videos (replies i))) rest))"
      using m(2) by (simp only: mset_subset_eq_mono_add_right_cancel)
    with ih(2) have "mset (items final) \<subseteq># (mset (items allCategories) + mset (concat (map items results)))
          + mset (concat (map (\<lambda>i. settled_items (processBatch videos (replies i))) rest))"
      by (rule subset_mset.order_trans)
    then show ?thesis
      using ih(1) unfolding promise_all_items [OF all] by (simp add: ac_simps)
  next
    case False
    with Cons.prems(1) have run: "run_batches videos replies nbatches rest ?p allCategories = Inr final"
      by (simp add: Let_def)
    from Cons.IH [OF run Cons.prems(2)] show ?thesis
      by (simp add: ac_simps)
  qed
qed

lemma settled_items_titles:
  "mset (map title (settled_items (processBatch videos reply))) \<subseteq># mset (reply_titles reply)"
proof (cases "processBatch videos reply")
  case (Inl e)
  then show ?thesis by (simp add: settled_items_def)
next
  case (Inr cats)
  then show ?thesis using processBatch_inv(2) [OF Inr] by (simp add: settled_items_def)
qed

lemma settled_items_first:
  "v \<in> set (settled_items (processBatch videos reply)) \<Longrightarrow> first_with_title videos v"
proof (cases "processBatch videos reply")
  case (Inl e)
  then show "v \<in> set (settled_items (processBatch videos reply)) \<Longrightarrow> first_with_title videos v"
    by (simp add: settled_items_def)
next
  case (Inr cats)
  then show "v \<in> set (settled_items (processBatch videos reply)) \<Longrightarrow> first_with_title videos v"
    using processBatch_inv(3) [OF Inr] by (simp add: settled_items_def)
qed

lemma batches_titles:
  "mset (map title (concat (map (\<lambda>i. settled_items (processBatch videos (replies i))) idxs)))
     \<subseteq># mset (concat (map (\<lambda>i. reply_titles (replies i)) idxs))"
proof (induction idxs)
  case Nil
  then show ?case by simp
next
  case (Cons i idxs)
  show ?case
    using mset_subset_eq_mono_add [OF settled_items_titles [of videos "replies i"] Cons.IH]
    by simp
qed

lemma dispatch_inv:
  assumes "dispatch videos replies = Inr allCategories"
  shows "mset (map title (items allCategories)) \<subseteq># mset (returned_titles videos replies)"
    and "\<forall>v\<in>set (items allCategories). first_with_title videos v"
    and "distinct (map fst allCategories)"
proof -
  let ?produced = "concat (map (\<lambda>i. settled_items (processBatch videos (replies i))) [0..<totalBatches videos])"
  from assms have run: "run_batches videos replies (totalBatches videos) [0..<totalBatches videos] [] [] = Inr allCategories"
    by (simp add: dispatch_def)
  from run_batches_inv [OF run]
  have d: "distinct (map fst allCategories)" and le: "mset (items allCategories) \<subseteq># mset ?produced"
    by (simp_all add: items_def)
  show "distinct (map fst allCategories)" by (rule d)
  have "image_mset title (mset (items allCategories)) \<subseteq># image_mset title (mset ?produced)"
    using le by (rule image_mset_subseteq_mono)
  then have "mset (map title (items allCategories)) \<subseteq># mset (map title ?produced)"
    by simp
  then show "mset (map title (items allCategories)) \<subseteq># mset (returned_titles videos replies)"
    unfolding returned_titles_def using batches_titles [of videos replies "[0..<totalBatches videos]"]
    by (rule subset_mset.order_trans)
  have "set (items allCategories) \<subseteq> set ?produced"
    using set_mset_mono [OF le] by simp
  then show "\<forall>v\<in>set (items allCategories). first_with_title videos v"
    using settled_items_first by fastforce
qed

lemma distinct_of_mset_le:
  assumes "mset xs \<subseteq># mset ys" and "distinct ys"
  shows "distinct xs"
proof -
  have ys1: "count (mset ys) a \<le> 1" for a
    using assms(2) [unfolded distinct_count_atmost_1] by simp
  have xs1: "count (mset xs) a \<le> 1" for a
    using mset_subset_eq_count [OF assms(1), of a] ys1 [of a] by simp
  show ?thesis
    unfolding distinct_count_atmost_1
  proof
    fix a
    show "count (mset xs) a = (if a \<in> set xs then 1 else 0)"
    proof (cases "a \<in> set xs")
      case True
      then have pos: "count (mset xs) a > 0" by (simp add: count_mset_gt_0)
      from pos xs1 [of a] have "count (mset xs) a = 1" by linarith
      with True show ?thesis by simp
    next
      case False
      then show ?thesis by (simp add: count_mset_0_iff)
    qed
  qed
qed

lemma valid_group_of: "name \<noteq> [] \<Longrightarrow> valid_group (group_of name titles) =
    Some (name, map (\<lambda>t. JObj [(''title'', JStr t)]) titles)"
  by (simp add: valid_group_def group_of_def)

lemma batch_T_in_A: "processBatch (first_T # vs) answer_T_in_A = Inr [(''A'', [first_T])]"
proof -
  have n: "group_of ''A'' [''T''] \<noteq> JNull"
    by (simp add: group_of_def)
  show ?thesis
    by (simp add: processBatch_def answer_T_in_A_def n valid_group_of ensure_category_def
        object_prototype_names_def push_video_def append_videos_def first_T_def)
qed

lemma second_batch_of_two: "batchVideos two_chunk_videos 1 = [last_T]"
  by (simp add: batchVideos_def two_chunk_videos_def BATCH_SIZE_def)

lemma find_by_info:
  "find (\<lambda>v. get_prop videoInfo ''title'' = Some (JStr (title v))) videos =
     (case get_prop videoInfo ''title'' of
        Some (JStr t) \<Rightarrow> find (\<lambda>w. title w = t) videos
      | _ \<Rightarrow> None)"
proof (cases "get_prop videoInfo ''title''")
  case None
  then show ?thesis by (simp add: find_None_iff)
next
  case (Some j)
  show ?thesis
  proof (cases j)
    case (JStr t)
    have "find (\<lambda>v. Some (JStr t) = Some (JStr (title v))) videos = find (\<lambda>w. title w = t) videos"
      by (rule arg_cong [where f = "\<lambda>P. find P videos"]) auto
    with Some JStr show ?thesis by simp
  qed (simp_all add: Some find_None_iff)
qed

lemma resolve_titles_append:
  "resolve_titles videos (ts @ us) = resolve_titles videos ts @ resolve_titles videos us"
  by (simp add: resolve_titles_def)

lemma resolve_titles_info:
  "resolve_titles videos (info_titles (videoInfo # rest)) =
     (case find (\<lambda>v. get_prop videoInfo ''title'' = Some (JStr (title v))) videos of
        None \<Rightarrow> [] | Some v \<Rightarrow> [v])
     @ resolve_titles videos (info_titles rest)"
proof -
  have "info_titles (videoInfo # rest) =
      (case get_prop videoInfo ''title'' of Some (JStr t) \<Rightarrow> [t] | _ \<Rightarrow> []) @ info_titles rest"
    by (simp add: info_titles_def)
  moreover have "resolve_titles videos (case get_prop videoInfo ''title'' of Some (JStr t) \<Rightarrow> [t] | _ \<Rightarrow> []) =
      (case find (\<lambda>v. get_prop videoInfo ''title'' = Some (JStr (title v))) videos of None \<Rightarrow> [] | Some v \<Rightarrow> [v])"
  proof (cases "get_prop videoInfo ''title''")
    case None
    then show ?thesis unfolding find_by_info by (simp add: resolve_titles_def)
  next
    case (Some j)
    then show ?thesis unfolding find_by_info by (cases j) (simp_all add: resolve_titles_def)
  qed
  ultimately show ?thesis
    by (simp add: resolve_titles_append)
qed

lemma append_videos_twice:
  "append_videos name ys (append_videos name xs cats) = append_videos name (xs @ ys) cats"
  by (induction cats) (auto simp: append_videos_def)

lemma append_videos_none: "append_videos name [] cats = cats"
  by (induction cats) (auto simp: append_videos_def)

lemma resolve_videos_exact:
  "resolve_videos videos name infos cats = Inr cats' \<Longrightarrow>
   cats' = append_videos name (resolve_titles videos (info_titles infos)) cats
   \<and> (name \<notin> set (map fst cats) \<longrightarrow> resolve_titles videos (info_titles infos) = [])"
proof (induction infos arbitrary: cats)
  case Nil
  then show ?case by (simp add: info_titles_def resolve_titles_def append_videos_none)
next
  case (Cons videoInfo rest)
  from Cons.prems have notnull: "videoInfo \<noteq> JNull"
    by (auto split: if_splits)
  show ?case
  proof (cases "find (\<lambda>v. get_prop videoInfo ''title'' = Some (JStr (title v))) videos")
    case None
    with Cons.prems notnull have run: "resolve_videos videos name rest cats = Inr cats'"
      by simp
    have "resolve_titles videos (info_titles (videoInfo # rest)) = resolve_titles videos (info_titles rest)"
      unfolding resolve_titles_info using None by simp
    with Cons.IH [OF run] show ?thesis by simp
  next
    case (Some ov)
    from Cons.prems notnull Some obtain cats1 where
      push: "push_video name ov cats = Inr cats1" and run: "resolve_videos videos name rest cats1 = Inr cats'"
      by (auto split: sum.splits)
    from push have present: "name \<in> set (map fst cats)" and c1: "cats1 = append_videos name [ov] cats"
      by (auto simp: push_video_def split: if_splits)
    have r: "resolve_titles videos (info_titles (videoInfo # rest)) = ov # resolve_titles videos (info_titles rest)"
      unfolding resolve_titles_info using Some by simp
    from Cons.IH [OF run] have "cats' = append_videos name (resolve_titles videos (info_titles rest)) cats1"
      by simp
    then have "cats' = append_videos name (resolve_titles videos (info_titles (videoInfo # rest))) cats"
      unfolding c1 r by (simp add: append_videos_twice)
    with present show ?thesis by simp
  qed
qed

lemma resolve_videos_items:
  assumes "resolve_videos videos name infos cats = Inr cats'" and "distinct (map fst cats)"
  shows "mset (items cats') = mset (items cats) + mset (resolve_titles videos (info_titles infos))"
proof (cases "name \<in> set (map fst cats)")
  case True
  from resolve_videos_exact [OF assms(1)] items_append_videos_present [OF assms(2) True]
  show ?thesis by simp
next
  case False
  with resolve_videos_exact [OF assms(1)] show ?thesis
    by (simp add: append_videos_none)
qed

lemma group_titles_Cons:
  "group_titles (categoryObj # rest) =
     (case valid_group categoryObj of None \<Rightarrow> [] | Some (name, infos) \<Rightarrow> info_titles infos) @ group_titles rest"
  by (simp add: group_titles_def)

lemma titles_under_Cons:
  "titles_under n (categoryObj # rest) =
     (case valid_group categoryObj of None \<Rightarrow> [] | Some (name, infos) \<Rightarrow> if name = n then info_titles infos else [])
     @ titles_under n rest"
  by (simp add: titles_under_def)

lemma group_categories_items:
  "group_categories videos groups cats = Inr cats' \<Longrightarrow> distinct (map fst cats) \<Longrightarrow>
   mset (items cats') = mset (items cats) + mset (resolve_titles videos (group_titles groups))"
proof (induction groups arbitrary: cats)
  case Nil
  then show ?case by (simp add: group_titles_def resolve_titles_def)
next
  case (Cons categoryObj rest)
  from Cons.prems(1) have notnull: "categoryObj \<noteq> JNull"
    by (auto split: if_splits)
  show ?case
  proof (cases "valid_group categoryObj")
    case None
    with Cons.prems notnull have run: "group_categories videos rest cats = Inr cats'"
      by simp
    from Cons.IH [OF run Cons.prems(2)] None show ?thesis
      by (simp add: group_titles_Cons)
  next
    case (Some g)
    obtain name infos where g: "g = (name, infos)" by (cases g)
    from Cons.prems(1) notnull Some g obtain cats1 where
      res: "resolve_videos videos name infos (ensure_category name cats) = Inr cats1"
      and run: "group_categories videos rest cats1 = Inr cats'"
      by (auto split: sum.splits)
    have d0: "distinct (map fst (ensure_category name cats))"
      by (rule ensure_category_keys [OF Cons.prems(2)])
    from resolve_videos_items [OF res d0]
    have m1: "mset (items cats1) = mset (items cats) + mset (resolve_titles videos (info_titles infos))"
      by (simp add: ensure_category_items)
    have d1: "distinct (map fst cats1)"
      using resolve_videos_inv [OF res d0] by simp
    from Cons.IH [OF run d1] m1 Some g show ?thesis
      by (simp add: group_titles_Cons resolve_titles_append)
  qed
qed

lemma map_of_append_videos:
  "map_of (append_videos name vs cats) n =
     (if n = name then map_option (\<lambda>ws. ws @ vs) (map_of cats n) else map_of cats n)"
  by (induction cats) (auto simp: append_videos_def)

lemma map_of_ensure_category:
  "map_of (ensure_category name cats) n =
     (if n = name \<and> name \<notin> set object_prototype_names \<and> name \<notin> set (map fst cats) then Some [] else map_of cats n)"
proof -
  have "name \<notin> set (map fst cats) \<Longrightarrow> map_of cats name = None"
    by (simp add: map_of_eq_None_iff)
  then show ?thesis
    by (auto simp: ensure_category_def map_add_def split: option.splits)
qed

lemma group_categories_under:
  "group_categories videos groups cats = Inr cats' \<Longrightarrow>
   (case map_of cats n of
      Some ws \<Rightarrow> map_of cats' n = Some (ws @ resolve_titles videos (titles_under n groups))
    | None \<Rightarrow> map_of cats' n = None \<or> map_of cats' n = Some (resolve_titles videos (titles_under n groups)))"
proof (induction groups arbitrary: cats)
  case Nil
  then show ?case by (simp add: titles_under_def resolve_titles_def split: option.splits)
next
  case (Cons categoryObj rest)
  from Cons.prems(1) have notnull: "categoryObj \<noteq> JNull"
    by (auto split: if_splits)
  show ?case
  proof (cases "valid_group categoryObj")
    case None
    with Cons.prems notnull have run: "group_categories videos rest cats = Inr cats'"
      by simp
    have e: "titles_under n (categoryObj # rest) = titles_under n rest"
      using None by (simp add: titles_under_Cons)
    from Cons.IH [OF run] show ?thesis
      unfolding e .
  next
    case (Some g)
    obtain name infos where g: "g = (name, infos)" by (cases g)
    from Cons.prems(1) notnull Some g obtain cats1 where
      res: "resolve_videos videos name infos (ensure_category name cats) = Inr cats1"
      and run: "group_categories videos rest cats1 = Inr cats'"
      by (auto split: sum.splits)
    let ?R = "resolve_titles videos (info_titles infos)"
    from resolve_videos_exact [OF res]
    have c1: "cats1 = append_videos name ?R (ensure_category name cats)"
      and absent: "name \<notin> set (map fst (ensure_category name cats)) \<Longrightarrow> ?R = []"
      by simp_all
    note ih = Cons.IH [OF run]
    show ?thesis
    proof (cases "n = name")
      case False
      then have same: "map_of cats1 n = map_of cats n"
        unfolding c1 by (simp add: map_of_append_videos map_of_ensure_category)
      have e: "titles_under n (categoryObj # rest) = titles_under n rest"
        using Some g False by (simp add: titles_under_Cons)
      from ih show ?thesis
        unfolding same e .
    next
      case True
      have tu: "resolve_titles videos (titles_under n (categoryObj # rest)) = ?R @ resolve_titles videos (titles_under n rest)"
        using Some g True by (simp add: titles_under_Cons resolve_titles_append)
      show ?thesis
      proof (cases "map_of cats n")
        case (Some ws)
        then have "n \<in> set (map fst cats)"
          by (metis map_of_eq_None_iff option.distinct(1) set_map)
        then have "map_of cats1 n = Some (ws @ ?R)"
          unfolding c1 using True Some by (simp add: map_of_append_videos map_of_ensure_category)
        with ih Some show ?thesis
          unfolding tu by simp
      next
        case None
        then have notin: "name \<notin> set (map fst cats)"
          using True by (simp add: map_of_eq_None_iff)
        show ?thesis
        proof (cases "name \<in> set object_prototype_names")
          case inherited: True
          then have e: "ensure_category name cats = cats"
            by (simp add: ensure_category_def)
          with absent notin have r: "?R = []" by simp
          have "map_of cats1 n = None"
            unfolding c1 e r using None by (simp add: append_videos_none)
          with ih None show ?thesis
            unfolding tu r by simp
        next
          case False
          then have "map_of cats1 n = Some ?R"
            unfolding c1 using True notin None by (simp add: map_of_append_videos map_of_ensure_category)
          with ih None show ?thesis
            unfolding tu by simp
        qed
      qed
    qed
  qed
qed

lemma processBatch_exact:
  assumes "processBatch videos reply = Inr cats"
  shows "mset (items cats) = mset (resolve_titles videos (reply_titles reply))"
    and "(name, vs) \<in> set cats \<Longrightarrow> vs = resolve_titles videos (reply_titles_under name reply)"
proof -
  have "mset (items cats) = mset (resolve_titles videos (reply_titles reply))
      \<and> ((name, vs) \<in> set cats \<longrightarrow> vs = resolve_titles videos (reply_titles_under name reply))"
  proof (cases reply)
    case (Request_fails msg)
    with assms show ?thesis by (simp add: processBatch_def)
  next
    case Unparsable
    with assms show ?thesis by (simp add: processBatch_def items_def reply_titles_def resolve_titles_def)
  next
    case (Parsed j)
    with assms obtain groups where j: "j = JArr groups" and run: "group_categories videos groups [] = Inr cats"
      by (cases j) (simp_all add: processBatch_def)
    have m: "mset (items cats) = mset (resolve_titles videos (group_titles groups))"
      using group_categories_items [OF run] by (simp add: items_def)
    have d: "distinct (map fst cats)"
      using processBatch_inv(1) [OF assms] .
    have u: "vs = resolve_titles videos (titles_under name groups)" if "(name, vs) \<in> set cats"
    proof -
      from that d have "map_of cats name = Some vs" by simp
      with group_categories_under [OF run, of name] show ?thesis by simp
    qed
    from m u Parsed j show ?thesis
      by (simp add: reply_titles_def reply_titles_under_def)
  qed
  then show "mset (items cats) = mset (resolve_titles videos (reply_titles reply))"
    and "(name, vs) \<in> set cats \<Longrightarrow> vs = resolve_titles videos (reply_titles_under name reply)"
    by simp_all
qed

lemma resolve_titles_mem:
  "t \<in> set ts \<Longrightarrow> find (\<lambda>w. title w = t) videos = Some v \<Longrightarrow> v \<in> set (resolve_titles videos ts)"
  by (force simp: resolve_titles_def)

lemma batch_T_and_unknown: "processBatch [first_T] answer_T_and_unknown = Inr [(''A'', [first_T])]"
proof -
  have n: "group_of ''A'' [''Z'', ''T''] \<noteq> JNull"
    by (simp add: group_of_def)
  show ?thesis
    by (simp add: processBatch_def answer_T_and_unknown_def n valid_group_of ensure_category_def
        object_prototype_names_def push_video_def append_videos_def first_T_def)
qed

text \<open>
  Claim C1, as the code has it. Every title that the answer to a batch names, in a group
  that passes the guard, is looked up in the whole input list: the batch's categories
  hold, for each such title, the first video of the whole list that carries it, under
  the name of the group that named it and in the order of the answer, and they hold
  nothing else; a title that no video carries adds nothing. The batch's own slice plays
  no part in the lookup.
\<close>

theorem titles_resolve_against_whole_list:
  assumes "processBatch videos reply = Inr batchCategories"
  shows "mset (items batchCategories) = mset (resolve_titles videos (reply_titles reply))
       \<and> (\<forall>t\<in>set (reply_titles reply). \<forall>v. find (\<lambda>w. title w = t) videos = Some v \<longrightarrow> v \<in> set (items batchCategories))
       \<and> (\<forall>name vs. (name, vs) \<in> set batchCategories \<longrightarrow> vs = resolve_titles videos (reply_titles_under name reply))
       \<and> (\<forall>v\<in>set (items batchCategories). v \<in> set videos \<and> first_with_title videos v \<and> title v \<in> set (reply_titles reply))"
proof (intro conjI ballI allI impI)
  show m: "mset (items batchCategories) = mset (resolve_titles videos (reply_titles reply))"
    by (rule processBatch_exact(1) [OF assms])
  {
    fix t v assume "t \<in> set (reply_titles reply)" and "find (\<lambda>w. title w = t) videos = Some v"
    then have "v \<in> set (resolve_titles videos (reply_titles reply))"
      by (rule resolve_titles_mem)
    then have "v \<in># mset (items batchCategories)"
      unfolding m by simp
    then show "v \<in> set (items batchCategories)" by simp
  }
  {
    fix name vs assume "(name, vs) \<in> set batchCategories"
    then show "vs = resolve_titles videos (reply_titles_under name reply)"
      by (rule processBatch_exact(2) [OF assms])
  }
  {
    fix v assume v: "v \<in> set (items batchCategories)"
    with processBatch_inv(3) [OF assms] show f: "first_with_title videos v"
      by simp
    then show "v \<in> set videos" by (rule first_with_title_mem)
    have "title v \<in># mset (map title (items batchCategories))"
      using v by simp
    then have "title v \<in># mset (reply_titles reply)"
      using processBatch_inv(2) [OF assms] by (meson mset_subset_eqD)
    then show "title v \<in> set (reply_titles reply)" by simp
  }
qed

theorem titles_resolve_against_whole_list_witness:
  "processBatch two_chunk_videos answer_T_in_A = Inr [(''A'', [first_T])]
   \<and> reply_titles answer_T_in_A = [''T'']
   \<and> find (\<lambda>w. title w = ''T'') two_chunk_videos = Some first_T
   \<and> mset (resolve_titles two_chunk_videos [''T'']) = {#first_T#}
   \<and> resolve_titles two_chunk_videos (reply_titles_under ''A'' answer_T_in_A) = [first_T]
   \<and> first_T \<in> set two_chunk_videos \<and> first_with_title two_chunk_videos first_T
   \<and> processBatch [first_T] answer_T_and_unknown = Inr [(''A'', [first_T])]
   \<and> reply_titles answer_T_and_unknown = [''Z'', ''T'']
   \<and> resolve_titles [first_T] (reply_titles_under ''A'' answer_T_and_unknown) = [first_T]"
proof -
  have b: "processBatch two_chunk_videos answer_T_in_A = Inr [(''A'', [first_T])]"
    unfolding two_chunk_videos_def by (rule batch_T_in_A)
  have rt: "reply_titles answer_T_in_A = [''T'']"
    by (simp add: reply_titles_def answer_T_in_A_def group_titles_def valid_group_of info_titles_def)
  have ru: "reply_titles answer_T_and_unknown = [''Z'', ''T'']"
    by (simp add: reply_titles_def answer_T_and_unknown_def group_titles_def valid_group_of info_titles_def)
  have f: "find (\<lambda>w. title w = ''T'') two_chunk_videos = Some first_T"
    by (simp add: two_chunk_videos_def first_T_def)
  have i: "items [(''A'', [first_T])] = [first_T]"
    by (simp add: items_def)
  have a: "(''A'', [first_T]) \<in> set [(''A'', [first_T])]"
    by simp
  note w1 = titles_resolve_against_whole_list [OF b]
  note w2 = titles_resolve_against_whole_list [OF batch_T_and_unknown]
  from w1 have m: "mset (resolve_titles two_chunk_videos [''T'']) = {#first_T#}"
    unfolding rt i by simp
  from w1 a have u1: "resolve_titles two_chunk_videos (reply_titles_under ''A'' answer_T_in_A) = [first_T]"
    by simp
  from w2 a have u2: "resolve_titles [first_T] (reply_titles_under ''A'' answer_T_and_unknown) = [first_T]"
    by simp
  from w1 have fw: "first_T \<in> set two_chunk_videos \<and> first_with_title two_chunk_videos first_T"
    unfolding i by simp
  from b rt f m u1 fw batch_T_and_unknown ru u2 show ?thesis
    by simp
qed

text \<open>
  Claim C1 as stated fails: of 201 videos the last one is alone in the second batch and
  shares its title with the first one. The answer to the second batch names that title,
  and the video put under the category is the first video, which is not in the second
  batch's slice; the last video is in no category at all.
\<close>

theorem second_batch_title_resolves_into_first_batch:
  "totalBatches two_chunk_videos = 2
   \<and> batchVideos two_chunk_videos 1 = [last_T]
   \<and> processBatch two_chunk_videos answer_T_in_A = Inr [(''A'', [first_T])]
   \<and> first_T \<notin> set (batchVideos two_chunk_videos 1)
   \<and> first_T \<noteq> last_T
   \<and> title first_T = title last_T"
proof -
  have b: "processBatch two_chunk_videos answer_T_in_A = Inr [(''A'', [first_T])]"
    unfolding two_chunk_videos_def by (rule batch_T_in_A)
  have n: "totalBatches two_chunk_videos = 2"
    by (simp add: totalBatches_def two_chunk_videos_def BATCH_SIZE_def)
  have d: "first_T \<noteq> last_T" and t: "title first_T = title last_T"
    by (simp_all add: first_T_def last_T_def)
  have s: "batchVideos two_chunk_videos 1 = [last_T]"
    by (rule second_batch_of_two)
  have m: "first_T \<notin> set (batchVideos two_chunk_videos 1)"
    unfolding s using d by simp
  show ?thesis
    using n s b m d t by blast
qed

text \<open>
  Claim C5, as the code has it. Every video in the merged result is a video of the input
  list, the first one carrying a title that some batch's answer names; a title that
  matches no video adds nothing. Nothing removes duplicates: a video is in the result as
  often as its title is named, so it is there at most once provided no title is named
  twice in the answers of all batches together.
\<close>

theorem merged_result_items:
  assumes "dispatch videos replies = Inr allCategories"
  shows "(\<forall>v\<in>set (items allCategories).
            v \<in> set videos \<and> first_with_title videos v \<and> title v \<in> set (returned_titles videos replies))
       \<and> (distinct (returned_titles videos replies) \<longrightarrow> distinct (items allCategories))"
proof (intro conjI ballI impI)
  fix v assume v: "v \<in> set (items allCategories)"
  with dispatch_inv(2) [OF assms] show f: "first_with_title videos v" by simp
  then show "v \<in> set videos" by (rule first_with_title_mem)
  have "title v \<in># mset (map title (items allCategories))"
    using v by simp
  then have "title v \<in># mset (returned_titles videos replies)"
    using dispatch_inv(1) [OF assms] by (meson mset_subset_eqD)
  then show "title v \<in> set (returned_titles videos replies)" by simp
next
  assume "distinct (returned_titles videos replies)"
  with dispatch_inv(1) [OF assms] have "distinct (map title (items allCategories))"
    by (rule distinct_of_mset_le)
  then show "distinct (items allCategories)"
    by (simp add: distinct_map)
qed

lemma batch_none: "processBatch vs answer_none = Inr []"
  by (simp add: processBatch_def answer_none_def)

lemma total_two_chunks: "totalBatches two_chunk_videos = 2"
  by (simp add: totalBatches_def two_chunk_videos_def BATCH_SIZE_def)

lemma dispatch_two_chunks:
  "dispatch two_chunk_videos replies_second_names_T = Inr [(''A'', [first_T])]"
proof -
  have u: "[0..<2] = [0, Suc 0]"
    by (simp add: numeral_2_eq_2)
  have p0: "processBatch two_chunk_videos (replies_second_names_T 0) = Inr []"
    by (simp add: replies_second_names_T_def batch_none)
  have p1: "processBatch two_chunk_videos (replies_second_names_T (Suc 0)) = Inr [(''A'', [first_T])]"
    unfolding two_chunk_videos_def by (simp add: replies_second_names_T_def batch_T_in_A)
  show ?thesis
    by (simp add: dispatch_def total_two_chunks u p0 p1 MAX_PARALLEL_def Let_def
        ensure_category_def object_prototype_names_def append_videos_def)
qed

lemma returned_titles_two_chunks:
  "returned_titles two_chunk_videos replies_second_names_T = [''T'']"
proof -
  have u: "[0..<2] = [0, Suc 0]"
    by (simp add: numeral_2_eq_2)
  show ?thesis
    by (simp add: returned_titles_def total_two_chunks u replies_second_names_T_def reply_titles_def
        answer_none_def answer_T_in_A_def group_titles_def valid_group_of info_titles_def)
qed

theorem merged_result_items_witness:
  "dispatch two_chunk_videos replies_second_names_T = Inr [(''A'', [first_T])]
   \<and> distinct (returned_titles two_chunk_videos replies_second_names_T)
   \<and> first_T \<in> set two_chunk_videos
   \<and> title first_T \<in> set (returned_titles two_chunk_videos replies_second_names_T)
   \<and> distinct (items [(''A'', [first_T])])"
proof -
  have d: "distinct (returned_titles two_chunk_videos replies_second_names_T)"
    by (simp add: returned_titles_two_chunks)
  have i: "first_T \<in> set (items [(''A'', [first_T])])"
    by (simp add: items_def)
  show ?thesis
    using merged_result_items [OF dispatch_two_chunks] d i dispatch_two_chunks by blast
qed

text \<open>
  Claim C5 as stated fails: for a single video whose title the answer names under two
  categories, the merged result holds the video twice, once in each category.
\<close>

theorem item_named_twice_is_merged_twice:
  "dispatch [first_T] (\<lambda>i. answer_T_twice) = Inr [(''A'', [first_T]), (''B'', [first_T])]
   \<and> count_list (items [(''A'', [first_T]), (''B'', [first_T])]) first_T = 2"
proof -
  have n: "group_of ''A'' [''T''] \<noteq> JNull" "group_of ''B'' [''T''] \<noteq> JNull"
    by (simp_all add: group_of_def)
  have b: "processBatch [first_T] answer_T_twice = Inr [(''A'', [first_T]), (''B'', [first_T])]"
    by (simp add: processBatch_def answer_T_twice_def n valid_group_of ensure_category_def
        object_prototype_names_def push_video_def append_videos_def first_T_def)
  have t: "totalBatches [first_T] = 1"
    by (simp add: totalBatches_def BATCH_SIZE_def)
  have d: "dispatch [first_T] (\<lambda>i. answer_T_twice) = Inr [(''A'', [first_T]), (''B'', [first_T])]"
    by (simp add: dispatch_def t b MAX_PARALLEL_def Let_def
        ensure_category_def object_prototype_names_def append_videos_def)
  show ?thesis
    using d by (simp add: items_def)
qed

section \<open>A failed cache write after a successful classification\<close>

lemma collection_of_categories: "collection_of ''categories'' = Some Categories"
  by (simp add: collection_of_def)

lemma key_first_T: "categorizationKey [first_T] = ''categorization_videos_a''"
  by (simp add: categorizationKey_def first_T_def)

lemma dispatch_first_T: "dispatch [first_T] (\<lambda>i. answer_T_in_A) = Inr [(''A'', [first_T])]"
proof -
  have t: "totalBatches [first_T] = 1"
    by (simp add: totalBatches_def BATCH_SIZE_def)
  show ?thesis
    by (simp add: dispatch_def t batch_T_in_A MAX_PARALLEL_def Let_def
        ensure_category_def object_prototype_names_def append_videos_def)
qed

lemma cache_miss_first_T:
  "getCachedData (Some 1000) ''categorization_videos_a'' ''categories'' empty_db = (None, empty_db)"
  by (simp add: getCachedData_def post_cache_get_def on_collection_def select_collection_def invalid_collection_def
      collection_of_categories post_cache_get_on_def empty_db_def fun_upd_idem)

lemma store_down_write:
  "cacheData short_stringify reach_store_down ''categorization_videos_a''
      (JObj [(''categories'', json_of_categories [(''A'', [first_T])])]) ''categories'' empty_db
     = (Inl ''Failed to store cache'', empty_db)"
  by (simp add: cacheData_def validatedData_def field_if_def json_of_categories_def numeral_3_eq_3
      reach_store_down_def post_cache_def select_collection_def invalid_collection_def collection_of_categories
      short_stringify_def MAX_DATA_SIZE_def)

text \<open>
  Claim C4 at the failing input: one video, classified into category \<open>A\<close>; the cache has
  no entry; every write to the store fails. \<open>categorizeVideos\<close> ends with the error toast
  and the categories are never displayed. On the same failing store \<open>loadPlaylistData\<close>,
  which does not await its cache write, returns with the videos loaded.
\<close>

theorem failed_cache_write_hides_categories:
  "dispatch [first_T] (\<lambda>i. answer_T_in_A) = Inr [(''A'', [first_T])]
   \<and> categorizeVideos short_stringify (Some 1000) reach_store_down [first_T] (\<lambda>i. answer_T_in_A) empty_db
       = (Toast_error ''Failed to categorize videos: Failed to store cache'', empty_db)
   \<and> cacheData short_stringify reach_store_down ''playlist_PL1''
         (JObj [(''videos'', JArr [JObj [(''id'', JStr ''v1'')]])]) ''playlists'' empty_db
       = (Inl ''Failed to store cache'', empty_db)
   \<and> loadPlaylistData env_three_keys (one_page_outside reach_store_down) ''PL1'' (initial_session env_three_keys)
       = Some (Inr (), (initial_session env_three_keys)\<lparr>cache_db := empty_db,
                          loaded_videos := Some [JObj [(''id'', JStr ''v1'')]]\<rparr>)"
  by (simp add: categorizeVideos_def key_first_T cache_miss_first_T dispatch_first_T store_down_write
      playlist_store_down_write playlist_loaded_with_store_down)

end
